theory Spec2Isabelle
  imports Main "HOL-Library.Multiset" "HOL-Library.AList"
begin

section \<open>Common.hpp: constants and identifier types\<close>

text \<open>
  \<^verbatim>\<open>Entity\<close> and \<^verbatim>\<open>ComponentTypeId\<close> are \<^verbatim>\<open>uint32_t\<close>, \<^verbatim>\<open>Index\<close> is \<^verbatim>\<open>size_t\<close>.
  Identifiers are only compared and used as keys, so they are natural numbers here; the
  places where an unsigned subtraction can wrap (\<^verbatim>\<open>m_Size - 1\<close>, \<^verbatim>\<open>m_Index - 1\<close>,
  \<^verbatim>\<open>m_LivingEntityCount--\<close>) are written out explicitly in the functions below.
\<close>

type_synonym Entity = nat
type_synonym ComponentTypeId = nat
type_synonym Index = nat

definition MAX_ENTITIES :: nat where
  "MAX_ENTITIES = 50000"

definition SIZE_MAX :: nat where
  "SIZE_MAX = 2 ^ 64 - 1"

definition UINT32_MAX :: nat where
  "UINT32_MAX = 2 ^ 32 - 1"

text \<open>
  Ways in which an operation can stop: an access outside the fixed array
  \<^verbatim>\<open>T m_ComponentArray[MAX_ENTITIES]\<close>, \<^verbatim>\<open>front()\<close> of an empty \<^verbatim>\<open>std::queue\<close> or
  dereferencing the end iterator of a map (all three undefined behaviour in C++), and
  the two assertions of the registry
  (\<^verbatim>\<open>"Too many entities in existance."\<close>, \<^verbatim>\<open>"Entity out of range."\<close>).
\<close>

datatype error = OutOfBounds | EmptyQueue | PastTheEnd | CapacityExceeded | InvalidEntity

section \<open>std::unordered_map with an observable iteration order\<close>

text \<open>
  The entity-to-index map is iterated by \<^verbatim>\<open>EntityIterator\<close>, so its iteration order is part
  of the behaviour. The map is a list of nodes with unique keys, in iteration order.
  Assigning to a key that is present changes the node in place, erasing a key keeps the
  order of the remaining nodes. Where a node for a new key is linked (and whether the
  table is rehashed) is left unspecified by the C++ standard: it is the parameter
  \<open>place\<close> of the operations below, and \<open>um_policy\<close> says what every conforming table
  guarantees: the new node is added and the old nodes are kept.
\<close>

type_synonym ('k, 'v) umap = "('k \<times> 'v) list"
type_synonym ('k, 'v) placement = "('k \<times> 'v) list \<Rightarrow> 'k \<Rightarrow> 'v \<Rightarrow> ('k \<times> 'v) list"

definition um_policy :: "('k, 'v) placement \<Rightarrow> bool" where
  "um_policy place \<longleftrightarrow>
     (\<forall>xs k v. k \<notin> fst ` set xs \<longrightarrow> mset (place xs k v) = add_mset (k, v) (mset xs))"

text \<open>Two concrete tables: new nodes linked at the head of the node list, or at its end.\<close>

definition place_front :: "('k, 'v) placement" where
  "place_front xs k v = (k, v) # xs"

definition place_back :: "('k, 'v) placement" where
  "place_back xs k v = xs @ [(k, v)]"

definition um_contains :: "('k, 'v) umap \<Rightarrow> 'k \<Rightarrow> bool" where
  "um_contains xs k \<longleftrightarrow> k \<in> fst ` set xs"

text \<open>\<^verbatim>\<open>m[k] = v\<close>\<close>

definition um_assign :: "('k, 'v) placement \<Rightarrow> ('k, 'v) umap \<Rightarrow> 'k \<Rightarrow> 'v \<Rightarrow> ('k, 'v) umap" where
  "um_assign place xs k v =
     (if um_contains xs k then AList.update k v xs else place xs k v)"

text \<open>\<^verbatim>\<open>m[k]\<close> read: a missing key is inserted with the value-initialised \<open>d\<close>.\<close>

definition um_index :: "('k, 'v) placement \<Rightarrow> 'v \<Rightarrow> ('k, 'v) umap \<Rightarrow> 'k \<Rightarrow> 'v \<times> ('k, 'v) umap" where
  "um_index place d xs k =
     (case map_of xs k of
        Some v \<Rightarrow> (v, xs)
      | None \<Rightarrow> (d, place xs k d))"

definition um_erase :: "('k, 'v) umap \<Rightarrow> 'k \<Rightarrow> ('k, 'v) umap" where
  "um_erase xs k = AList.delete k xs"

section \<open>ComponentArray.hpp: the packed component array\<close>

text \<open>
  The fixed array is a function from slots to values, every access checked against
  \<^verbatim>\<open>MAX_ENTITIES\<close>. The index-to-entity map is never iterated, so it is a plain map.
\<close>

record 'a ComponentArray =
  m_ComponentArray :: "Index \<Rightarrow> 'a"
  m_EntityToIndexMap :: "(Entity, Index) umap"
  m_IndexToEntityMap :: "Index \<rightharpoonup> Entity"
  m_Size :: Index

definition ComponentArray_init :: "'a::default ComponentArray" where
  "ComponentArray_init =
     \<lparr>m_ComponentArray = (\<lambda>_. default), m_EntityToIndexMap = [],
      m_IndexToEntityMap = Map.empty, m_Size = 0\<rparr>"

text \<open>\<^verbatim>\<open>InsertData\<close> returns the slot it wrote (the C++ returns a reference to it).\<close>

definition InsertData ::
  "(Entity, Index) placement \<Rightarrow> 'a ComponentArray \<Rightarrow> Entity \<Rightarrow> 'a \<Rightarrow> error + (Index \<times> 'a ComponentArray)" where
  "InsertData place s entity v =
     (let newIndex = m_Size s;
          e2i = um_assign place (m_EntityToIndexMap s) entity newIndex;
          i2e = (m_IndexToEntityMap s)(newIndex \<mapsto> entity)
      in if newIndex < MAX_ENTITIES
         then Inr (newIndex,
                s\<lparr>m_ComponentArray := (m_ComponentArray s)(newIndex := v),
                  m_EntityToIndexMap := e2i,
                  m_IndexToEntityMap := i2e,
                  m_Size := newIndex + 1\<rparr>)
         else Inl OutOfBounds)"

text \<open>
  \<^verbatim>\<open>RemoveData\<close>: both \<^verbatim>\<open>operator[]\<close> reads insert a zero entry for a missing key.
  With \<^verbatim>\<open>m_Size = 0\<close> the index of the last element wraps to \<^verbatim>\<open>SIZE_MAX\<close>.
\<close>

definition RemoveData ::
  "(Entity, Index) placement \<Rightarrow> 'a ComponentArray \<Rightarrow> Entity \<Rightarrow> error + 'a ComponentArray" where
  "RemoveData place s entity =
     (let (indexOfRemovedEntity, e2i1) = um_index place 0 (m_EntityToIndexMap s) entity;
          indexOfLastElement = (if m_Size s = 0 then SIZE_MAX else m_Size s - 1)
      in if indexOfRemovedEntity < MAX_ENTITIES \<and> indexOfLastElement < MAX_ENTITIES
         then
           (let arr = (m_ComponentArray s)
                        (indexOfRemovedEntity := m_ComponentArray s indexOfLastElement);
                (entityOfLastElement, i2e1) =
                   (case m_IndexToEntityMap s indexOfLastElement of
                      Some e \<Rightarrow> (e, m_IndexToEntityMap s)
                    | None \<Rightarrow> (0, (m_IndexToEntityMap s)(indexOfLastElement \<mapsto> 0)));
                e2i2 = um_assign place e2i1 entityOfLastElement indexOfRemovedEntity;
                i2e2 = i2e1(indexOfRemovedEntity \<mapsto> entityOfLastElement);
                e2i3 = um_erase e2i2 entity;
                i2e3 = i2e2(indexOfLastElement := None)
            in Inr (s\<lparr>m_ComponentArray := arr,
                      m_EntityToIndexMap := e2i3,
                      m_IndexToEntityMap := i2e3,
                      m_Size := m_Size s - 1\<rparr>))
         else Inl OutOfBounds)"

text \<open>\<^verbatim>\<open>GetData\<close> goes through \<^verbatim>\<open>operator[]\<close> as well, so it returns the store too.\<close>

definition GetData ::
  "(Entity, Index) placement \<Rightarrow> 'a ComponentArray \<Rightarrow> Entity \<Rightarrow> error + ('a \<times> 'a ComponentArray)" where
  "GetData place s entity =
     (let (i, e2i) = um_index place 0 (m_EntityToIndexMap s) entity
      in if i < MAX_ENTITIES
         then Inr (m_ComponentArray s i, s\<lparr>m_EntityToIndexMap := e2i\<rparr>)
         else Inl OutOfBounds)"

definition HasData :: "'a ComponentArray \<Rightarrow> Entity \<Rightarrow> bool" where
  "HasData s entity = um_contains (m_EntityToIndexMap s) entity"

definition OnEntityDestroyed ::
  "(Entity, Index) placement \<Rightarrow> 'a ComponentArray \<Rightarrow> Entity \<Rightarrow> error + 'a ComponentArray" where
  "OnEntityDestroyed place s entity =
     (if HasData s entity then RemoveData place s entity else Inr s)"

subsection \<open>The two iterators\<close>

text \<open>
  \<^verbatim>\<open>Iterator\<close> is the pair of the array and \<^verbatim>\<open>m_Index\<close>; the array never changes during
  an iteration, so the iterator is its index. \<^verbatim>\<open>operator++\<close> is \<^verbatim>\<open>--m_Index\<close>,
  \<^verbatim>\<open>operator*\<close> reads position \<^verbatim>\<open>m_Index - 1\<close>; both are unsigned and wrap at zero.
\<close>

definition ComponentArray_begin :: "'a ComponentArray \<Rightarrow> Index" where
  "ComponentArray_begin s = m_Size s"

definition ComponentArray_end :: "'a ComponentArray \<Rightarrow> Index" where
  "ComponentArray_end s = 0"

definition Iterator_incr :: "Index \<Rightarrow> Index" where
  "Iterator_incr i = (if i = 0 then SIZE_MAX else i - 1)"

definition Iterator_deref :: "(Index \<Rightarrow> 'a) \<Rightarrow> Index \<Rightarrow> error + 'a" where
  "Iterator_deref arr i =
     (let pos = (if i = 0 then SIZE_MAX else i - 1)
      in if pos < MAX_ENTITIES then Inr (arr pos) else Inl OutOfBounds)"

text \<open>The range-based loop \<^verbatim>\<open>for (it = begin(); it != end(); ++it) yield *it\<close>.\<close>

function components_loop :: "(Index \<Rightarrow> 'a) \<Rightarrow> Index \<Rightarrow> Index \<Rightarrow> error + 'a list" where
  "components_loop arr it e =
     (if it = e then Inr []
      else (case Iterator_deref arr it of
              Inl err \<Rightarrow> Inl err
            | Inr v \<Rightarrow>
                (case components_loop arr (Iterator_incr it) e of
                   Inl err \<Rightarrow> Inl err
                 | Inr vs \<Rightarrow> Inr (v # vs))))"
  by pat_completeness auto
termination
proof (relation "measure (\<lambda>(arr, it, e). it)")
  show "wf (measure (\<lambda>(arr :: Index \<Rightarrow> 'a, it :: Index, e :: Index). it))"
    by simp
next
  fix arr :: "Index \<Rightarrow> 'a" and it e :: Index and v :: 'a
  assume "it \<noteq> e" and ok: "Iterator_deref arr it = Inr v"
  have "it \<noteq> 0"
  proof
    assume "it = 0"
    with ok show False
      by (simp add: Iterator_deref_def SIZE_MAX_def MAX_ENTITIES_def)
  qed
  then show "((arr, Iterator_incr it, e), (arr, it, e)) \<in> measure (\<lambda>(arr, it, e). it)"
    by (simp add: Iterator_incr_def)
qed

declare components_loop.simps [simp del]

definition ComponentArray_components :: "'a ComponentArray \<Rightarrow> error + 'a list" where
  "ComponentArray_components s =
     components_loop (m_ComponentArray s) (ComponentArray_begin s) (ComponentArray_end s)"

text \<open>
  \<^verbatim>\<open>EntityIterator\<close> wraps a \<^verbatim>\<open>const_iterator\<close> of the entity-to-index map: the nodes still
  to be visited. The end iterator has none left, \<^verbatim>\<open>operator++\<close> drops the first,
  \<^verbatim>\<open>operator*\<close> is the key of the first, and \<^verbatim>\<open>operator==\<close> compares the positions. The keys
  of the map are unique, so two positions in it are equal exactly if the nodes left are.
\<close>

type_synonym EntityIterator = "(Entity \<times> Index) list"

definition BeginEntityIt :: "'a ComponentArray \<Rightarrow> EntityIterator" where
  "BeginEntityIt s = m_EntityToIndexMap s"

definition EndEntityIt :: "'a ComponentArray \<Rightarrow> EntityIterator" where
  "EndEntityIt s = []"

definition EntityIterator_deref :: "EntityIterator \<Rightarrow> error + Entity" where
  "EntityIterator_deref it = (case it of [] \<Rightarrow> Inl PastTheEnd | node # rest \<Rightarrow> Inr (fst node))"

definition EntityIterator_incr :: "EntityIterator \<Rightarrow> EntityIterator" where
  "EntityIterator_incr it = tl it"

text \<open>\<^verbatim>\<open>for (it = begin; it != end; ++it) yield *it\<close> over entity iterators.\<close>

function entities_loop :: "EntityIterator \<Rightarrow> EntityIterator \<Rightarrow> error + Entity list" where
  "entities_loop it e =
     (if it = e then Inr []
      else (case EntityIterator_deref it of
              Inl err \<Rightarrow> Inl err
            | Inr entity \<Rightarrow>
                (case entities_loop (EntityIterator_incr it) e of
                   Inl err \<Rightarrow> Inl err
                 | Inr entities \<Rightarrow> Inr (entity # entities))))"
  by pat_completeness auto
termination
proof (relation "measure (\<lambda>(it, e). length it)")
  show "wf (measure (\<lambda>(it :: EntityIterator, e :: EntityIterator). length it))"
    by simp
next
  fix it e :: EntityIterator and entity :: Entity
  assume "it \<noteq> e" and ok: "EntityIterator_deref it = Inr entity"
  from ok have "it \<noteq> []"
    by (auto simp: EntityIterator_deref_def)
  then show "((EntityIterator_incr it, e), (it, e)) \<in> measure (\<lambda>(it, e). length it)"
    by (simp add: EntityIterator_incr_def)
qed

declare entities_loop.simps [simp del]

subsection \<open>Sequences of store operations\<close>

datatype 'a store_op = Insert Entity 'a | Remove Entity

fun apply_op ::
  "(Entity, Index) placement \<Rightarrow> 'a ComponentArray \<Rightarrow> 'a store_op \<Rightarrow> error + 'a ComponentArray" where
  "apply_op place s (Insert e v) =
     (case InsertData place s e v of Inl err \<Rightarrow> Inl err | Inr (i, s') \<Rightarrow> Inr s')"
| "apply_op place s (Remove e) = RemoveData place s e"

fun run_ops ::
  "(Entity, Index) placement \<Rightarrow> 'a ComponentArray \<Rightarrow> 'a store_op list \<Rightarrow> error + 'a ComponentArray" where
  "run_ops place s [] = Inr s"
| "run_ops place s (x # xs) =
     (case apply_op place s x of Inl err \<Rightarrow> Inl err | Inr s' \<Rightarrow> run_ops place s' xs)"

fun inserts :: "'a store_op list \<Rightarrow> nat" where
  "inserts [] = 0"
| "inserts (Insert e v # xs) = Suc (inserts xs)"
| "inserts (Remove e # xs) = inserts xs"

fun removes :: "'a store_op list \<Rightarrow> nat" where
  "removes [] = 0"
| "removes (Insert e v # xs) = removes xs"
| "removes (Remove e # xs) = Suc (removes xs)"

text \<open>
  What the store is meant to represent: the component value of every present entity.
  \<open>contents\<close> reads it off a store; \<open>spec_ops\<close> is the intended effect of a sequence of
  operations on that map, and \<open>well_targeted\<close> says that every insert is for an entity
  (an id below \<^verbatim>\<open>MAX_ENTITIES\<close>) without a component and every remove for one with a
  component.
\<close>

definition contents :: "'a ComponentArray \<Rightarrow> Entity \<rightharpoonup> 'a" where
  "contents s e = map_option (m_ComponentArray s) (map_of (m_EntityToIndexMap s) e)"

fun spec_ops :: "(Entity \<rightharpoonup> 'a) \<Rightarrow> 'a store_op list \<Rightarrow> (Entity \<rightharpoonup> 'a)" where
  "spec_ops m [] = m"
| "spec_ops m (Insert e v # xs) = spec_ops (m(e \<mapsto> v)) xs"
| "spec_ops m (Remove e # xs) = spec_ops (m(e := None)) xs"

fun well_targeted :: "(Entity \<rightharpoonup> 'a) \<Rightarrow> 'a store_op list \<Rightarrow> bool" where
  "well_targeted m [] = True"
| "well_targeted m (Insert e v # xs) =
     (m e = None \<and> e < MAX_ENTITIES \<and> well_targeted (m(e \<mapsto> v)) xs)"
| "well_targeted m (Remove e # xs) = (m e \<noteq> None \<and> well_targeted (m(e := None)) xs)"

text \<open>
  The packing invariant: the slots in use are exactly \<open>[0, m_Size)\<close>, and the two index
  maps are inverse to each other.
\<close>

definition store_inv :: "'a ComponentArray \<Rightarrow> bool" where
  "store_inv s \<longleftrightarrow>
     m_Size s \<le> MAX_ENTITIES \<and>
     distinct (map fst (m_EntityToIndexMap s)) \<and>
     dom (m_IndexToEntityMap s) = {0..<m_Size s} \<and>
     (\<forall>i e. m_IndexToEntityMap s i = Some e \<longrightarrow> map_of (m_EntityToIndexMap s) e = Some i) \<and>
     (\<forall>e i. map_of (m_EntityToIndexMap s) e = Some i \<longrightarrow> m_IndexToEntityMap s i = Some e)"

definition entities_valid :: "'a ComponentArray \<Rightarrow> bool" where
  "entities_valid s \<longleftrightarrow> (\<forall>e. HasData s e \<longrightarrow> e < MAX_ENTITIES)"

section \<open>View.hpp\<close>

text \<open>
  A view holds one store per component type of its template, at least one
  (\<^verbatim>\<open>static_assert(sizeof...(Components) > 0)\<close> in \<^verbatim>\<open>Registry::View\<close>): the first store and
  the list of the others. The stores are the ones the registry handed out when the view
  was made. Component values of all types are values of one type \<open>'a\<close>.
\<close>

datatype 'a View = View (first_array: "'a ComponentArray") (other_arrays: "'a ComponentArray list")

definition m_Arrays :: "'a View \<Rightarrow> 'a ComponentArray list" where
  "m_Arrays v = first_array v # other_arrays v"

definition View_Contains :: "'a View \<Rightarrow> Entity \<Rightarrow> bool" where
  "View_Contains v entity = list_all (\<lambda>s. HasData s entity) (m_Arrays v)"

definition View_begin :: "'a View \<Rightarrow> EntityIterator" where
  "View_begin v = BeginEntityIt (first_array v)"

definition View_end :: "'a View \<Rightarrow> EntityIterator" where
  "View_end v = EndEntityIt (first_array v)"

text \<open>\<^verbatim>\<open>for (const Entity entity : view)\<close>\<close>

definition View_entities :: "'a View \<Rightarrow> error + Entity list" where
  "View_entities v = entities_loop (View_begin v) (View_end v)"

text \<open>
  \<^verbatim>\<open>GetAsTuple\<close> over the stores other than the first: \<^verbatim>\<open>GetData\<close> on each, which may
  insert a zero entry for a missing entity.
\<close>

fun GetAsTuple ::
  "(Entity, Index) placement \<Rightarrow> 'a ComponentArray list \<Rightarrow> Entity \<Rightarrow>
     error + ('a list \<times> 'a ComponentArray list)" where
  "GetAsTuple place [] entity = Inr ([], [])"
| "GetAsTuple place (s # ss) entity =
     (case GetData place s entity of
        Inl err \<Rightarrow> Inl err
      | Inr (v, s') \<Rightarrow>
          (case GetAsTuple place ss entity of
             Inl err \<Rightarrow> Inl err
           | Inr (vs, ss') \<Rightarrow> Inr (v # vs, s' # ss')))"

text \<open>
  The loop of \<^verbatim>\<open>Each\<close>: \<open>entityIt\<close> walks the entity-to-index map of the first store, from
  \<^verbatim>\<open>BeginEntityIt\<close> until it equals \<^verbatim>\<open>EndEntityIt\<close>, while \<open>compIt\<close> walks its component array. \<^verbatim>\<open>DispatchGet\<close> dereferences \<open>compIt\<close> for the first
  component type and calls \<^verbatim>\<open>GetData\<close> for the others. The result lists the calls made
  to \<^verbatim>\<open>func\<close>, each with the entity and the component values passed, and the other
  stores as \<^verbatim>\<open>GetData\<close> left them.
\<close>

function Each_loop ::
  "(Entity, Index) placement \<Rightarrow> (Index \<Rightarrow> 'a) \<Rightarrow> EntityIterator \<Rightarrow> EntityIterator \<Rightarrow> Index \<Rightarrow>
     'a ComponentArray list \<Rightarrow> error + ((Entity \<times> 'a list) list \<times> 'a ComponentArray list)" where
  "Each_loop place arr entityIt endIt compIt others =
     (if entityIt = endIt then Inr ([], others)
      else (case EntityIterator_deref entityIt of
              Inl err \<Rightarrow> Inl err
            | Inr entity \<Rightarrow>
                (case Iterator_deref arr compIt of
                   Inl err \<Rightarrow> Inl err
                 | Inr v \<Rightarrow>
                     (case GetAsTuple place others entity of
                        Inl err \<Rightarrow> Inl err
                      | Inr (vs, others') \<Rightarrow>
                          (case Each_loop place arr (EntityIterator_incr entityIt) endIt
                                  (Iterator_incr compIt) others' of
                             Inl err \<Rightarrow> Inl err
                           | Inr (calls, others'') \<Rightarrow>
                               Inr ((entity, v # vs) # calls, others''))))))"
  by pat_completeness auto
termination
proof (relation "measure (\<lambda>(place, arr, entityIt, endIt, compIt, others). length entityIt)")
  show "wf (measure (\<lambda>(place :: (Entity, Index) placement, arr :: Index \<Rightarrow> 'a,
      entityIt :: EntityIterator, endIt :: EntityIterator, compIt :: Index,
      others :: 'a ComponentArray list). length entityIt))"
    by simp
next
  fix place :: "(Entity, Index) placement" and arr :: "Index \<Rightarrow> 'a"
    and entityIt endIt :: EntityIterator and compIt :: Index
    and others others' :: "'a ComponentArray list" and entity :: Entity
  assume ok: "EntityIterator_deref entityIt = Inr entity"
  from ok have "entityIt \<noteq> []"
    by (auto simp: EntityIterator_deref_def)
  then show "((place, arr, EntityIterator_incr entityIt, endIt, Iterator_incr compIt, others'),
              (place, arr, entityIt, endIt, compIt, others))
             \<in> measure (\<lambda>(place, arr, entityIt, endIt, compIt, others). length entityIt)"
    by (simp add: EntityIterator_incr_def)
qed

declare Each_loop.simps [simp del]

definition Each ::
  "(Entity, Index) placement \<Rightarrow> 'a View \<Rightarrow> error + ((Entity \<times> 'a list) list \<times> 'a ComponentArray list)" where
  "Each place v =
     Each_loop place (m_ComponentArray (first_array v)) (BeginEntityIt (first_array v))
       (EndEntityIt (first_array v)) (ComponentArray_begin (first_array v)) (other_arrays v)"

section \<open>Registry.hpp\<close>

text \<open>
  A component type is known to the registry by its \<^verbatim>\<open>ComponentTypeId\<close>. The registry keeps
  the stores in a map from type ids; here the list of its entries, a store of a new type
  going to the end. Its order is only used to notify the stores of a destroyed entity,
  each of which changes nothing but itself.
\<close>

record 'a Registry =
  m_AvailableEntities :: "Entity list"
  m_LivingEntityCount :: nat
  m_ComponentArrays :: "(ComponentTypeId \<times> 'a ComponentArray) list"

text \<open>The constructor's loop \<^verbatim>\<open>for (id = 0; id < MAX_ENTITIES; id++) push(id)\<close>.\<close>

function push_ids :: "Entity \<Rightarrow> Entity list \<Rightarrow> Entity list" where
  "push_ids eid q = (if eid < MAX_ENTITIES then push_ids (eid + 1) (q @ [eid]) else q)"
  by pat_completeness auto
termination
  by (relation "measure (\<lambda>(eid, q). MAX_ENTITIES - eid)") auto

declare push_ids.simps [simp del]

definition Registry_init :: "'a Registry" where
  "Registry_init =
     \<lparr>m_AvailableEntities = push_ids 0 [], m_LivingEntityCount = 0, m_ComponentArrays = []\<rparr>"

definition CreateEntity :: "'a Registry \<Rightarrow> error + (Entity \<times> 'a Registry)" where
  "CreateEntity r =
     (if m_LivingEntityCount r < MAX_ENTITIES
      then (case m_AvailableEntities r of
              [] \<Rightarrow> Inl EmptyQueue
            | eid # q \<Rightarrow>
                Inr (eid, r\<lparr>m_AvailableEntities := q,
                           m_LivingEntityCount :=
                             (if m_LivingEntityCount r = UINT32_MAX then 0
                              else m_LivingEntityCount r + 1)\<rparr>))
      else Inl CapacityExceeded)"

fun notify_arrays ::
  "(Entity, Index) placement \<Rightarrow> (ComponentTypeId \<times> 'a ComponentArray) list \<Rightarrow> Entity \<Rightarrow>
     error + (ComponentTypeId \<times> 'a ComponentArray) list" where
  "notify_arrays place [] entity = Inr []"
| "notify_arrays place ((t, s) # arrays) entity =
     (case OnEntityDestroyed place s entity of
        Inl err \<Rightarrow> Inl err
      | Inr s' \<Rightarrow>
          (case notify_arrays place arrays entity of
             Inl err \<Rightarrow> Inl err
           | Inr arrays' \<Rightarrow> Inr ((t, s') # arrays')))"

definition Registry_OnEntityDestroyed ::
  "(Entity, Index) placement \<Rightarrow> 'a Registry \<Rightarrow> Entity \<Rightarrow> error + 'a Registry" where
  "Registry_OnEntityDestroyed place r entity =
     (case notify_arrays place (m_ComponentArrays r) entity of
        Inl err \<Rightarrow> Inl err
      | Inr arrays \<Rightarrow> Inr (r\<lparr>m_ComponentArrays := arrays\<rparr>))"

definition DestroyEntity ::
  "(Entity, Index) placement \<Rightarrow> 'a Registry \<Rightarrow> Entity \<Rightarrow> error + 'a Registry" where
  "DestroyEntity place r entity =
     (if entity < MAX_ENTITIES
      then (case Registry_OnEntityDestroyed place r entity of
              Inl err \<Rightarrow> Inl err
            | Inr r' \<Rightarrow>
                Inr (r'\<lparr>m_AvailableEntities := m_AvailableEntities r' @ [entity],
                        m_LivingEntityCount :=
                          (if m_LivingEntityCount r' = 0 then UINT32_MAX
                           else m_LivingEntityCount r' - 1)\<rparr>))
      else Inl InvalidEntity)"

text \<open>
  \<^verbatim>\<open>GetComponentArray<T>\<close> creates the store of a type on its first use. It returns a shared
  pointer; the callers below change the store through it, which \<open>put_array\<close> writes back.
\<close>

definition GetComponentArray ::
  "'a::default Registry \<Rightarrow> ComponentTypeId \<Rightarrow> 'a ComponentArray \<times> 'a Registry" where
  "GetComponentArray r typeId =
     (case map_of (m_ComponentArrays r) typeId of
        Some s \<Rightarrow> (s, r)
      | None \<Rightarrow>
          (ComponentArray_init,
           r\<lparr>m_ComponentArrays := m_ComponentArrays r @ [(typeId, ComponentArray_init)]\<rparr>))"

definition put_array :: "'a Registry \<Rightarrow> ComponentTypeId \<Rightarrow> 'a ComponentArray \<Rightarrow> 'a Registry" where
  "put_array r typeId s = r\<lparr>m_ComponentArrays := AList.update typeId s (m_ComponentArrays r)\<rparr>"

definition AddComponent ::
  "(Entity, Index) placement \<Rightarrow> 'a::default Registry \<Rightarrow> ComponentTypeId \<Rightarrow> Entity \<Rightarrow> 'a \<Rightarrow>
     error + (Index \<times> 'a Registry)" where
  "AddComponent place r typeId entity v =
     (let (s, r') = GetComponentArray r typeId
      in case InsertData place s entity v of
           Inl err \<Rightarrow> Inl err
         | Inr (i, s') \<Rightarrow> Inr (i, put_array r' typeId s'))"

definition GetComponent ::
  "(Entity, Index) placement \<Rightarrow> 'a::default Registry \<Rightarrow> ComponentTypeId \<Rightarrow> Entity \<Rightarrow>
     error + ('a \<times> 'a Registry)" where
  "GetComponent place r typeId entity =
     (let (s, r') = GetComponentArray r typeId
      in case GetData place s entity of
           Inl err \<Rightarrow> Inl err
         | Inr (v, s') \<Rightarrow> Inr (v, put_array r' typeId s'))"

definition HasComponent :: "'a::default Registry \<Rightarrow> ComponentTypeId \<Rightarrow> Entity \<Rightarrow> bool \<times> 'a Registry" where
  "HasComponent r typeId entity =
     (let (s, r') = GetComponentArray r typeId in (HasData s entity, r'))"

definition RemoveComponent ::
  "(Entity, Index) placement \<Rightarrow> 'a::default Registry \<Rightarrow> ComponentTypeId \<Rightarrow> Entity \<Rightarrow> error + 'a Registry" where
  "RemoveComponent place r typeId entity =
     (let (s, r') = GetComponentArray r typeId
      in case RemoveData place s entity of
           Inl err \<Rightarrow> Inl err
         | Inr s' \<Rightarrow> Inr (put_array r' typeId s'))"

text \<open>\<^verbatim>\<open>View<Components...>()\<close>: the stores of the requested types, in the order requested.\<close>

fun GetComponentArrays ::
  "'a::default Registry \<Rightarrow> ComponentTypeId list \<Rightarrow> 'a ComponentArray list \<times> 'a Registry" where
  "GetComponentArrays r [] = ([], r)"
| "GetComponentArrays r (t # ts) =
     (let (s, r') = GetComponentArray r t;
          (ss, r'') = GetComponentArrays r' ts
      in (s # ss, r''))"

definition Registry_View ::
  "'a::default Registry \<Rightarrow> ComponentTypeId \<Rightarrow> ComponentTypeId list \<Rightarrow> 'a View \<times> 'a Registry" where
  "Registry_View r t ts =
     (let (s, r') = GetComponentArray r t;
          (ss, r'') = GetComponentArrays r' ts
      in (View s ss, r''))"

text \<open>Allocator invariant: the queue holds distinct free ids and the counter counts the others.\<close>

definition alloc_inv :: "'a Registry \<Rightarrow> bool" where
  "alloc_inv r \<longleftrightarrow>
     distinct (m_AvailableEntities r) \<and>
     set (m_AvailableEntities r) \<subseteq> {0..<MAX_ENTITIES} \<and>
     m_LivingEntityCount r + length (m_AvailableEntities r) = MAX_ENTITIES"

definition arrays_inv :: "'a Registry \<Rightarrow> bool" where
  "arrays_inv r \<longleftrightarrow> list_all (\<lambda>(t, s). store_inv s) (m_ComponentArrays r)"

text \<open>\<open>create_n n\<close>: \<^verbatim>\<open>CreateEntity\<close> called \<open>n\<close> times, with the ids returned in order.\<close>

fun create_n :: "nat \<Rightarrow> 'a Registry \<Rightarrow> error + (Entity list \<times> 'a Registry)" where
  "create_n 0 r = Inr ([], r)"
| "create_n (Suc n) r =
     (case CreateEntity r of
        Inl err \<Rightarrow> Inl err
      | Inr (eid, r') \<Rightarrow>
          (case create_n n r' of
             Inl err \<Rightarrow> Inl err
           | Inr (ids, r'') \<Rightarrow> Inr (eid # ids, r'')))"

section \<open>The components of the usage example\<close>

text \<open>
  The README's \<^verbatim>\<open>UUIDComponent\<close>, \<^verbatim>\<open>TagComponent\<close> and \<^verbatim>\<open>PointComponent\<close>, as one type of
  component values. \<open>default\<close> is what the slots of a new array hold.
\<close>

datatype component = UUIDComponent nat | TagComponent string | PointComponent int int

instantiation component :: default
begin

definition default_component :: component where
  "default_component = UUIDComponent 0"

instance ..

end

text \<open>A store holding entity 7, and one holding entities 7, 8 and 9 in slots 0, 1 and 2.\<close>

definition store_7 :: "component ComponentArray" where
  "store_7 =
     \<lparr>m_ComponentArray = (\<lambda>_. default)(0 := UUIDComponent 10),
      m_EntityToIndexMap = [(7, 0)],
      m_IndexToEntityMap = [0 \<mapsto> 7],
      m_Size = 1\<rparr>"

definition store_789 :: "component ComponentArray" where
  "store_789 =
     \<lparr>m_ComponentArray =
        (\<lambda>_. default)(0 := UUIDComponent 10, 1 := UUIDComponent 20, 2 := UUIDComponent 30),
      m_EntityToIndexMap = [(9, 2), (8, 1), (7, 0)],
      m_IndexToEntityMap = [0 \<mapsto> 7, 1 \<mapsto> 8, 2 \<mapsto> 9],
      m_Size = 3\<rparr>"

text \<open>
  The type ids that \<^verbatim>\<open>GetComponentTypeId\<close> hands out in the usage example, where the
  component types are first used in this order.
\<close>

definition UUID_ID :: ComponentTypeId where "UUID_ID = 0"
definition TAG_ID :: ComponentTypeId where "TAG_ID = 1"
definition POINT_ID :: ComponentTypeId where "POINT_ID = 2"

text \<open>
  The \<^verbatim>\<open>main\<close> of the README up to the first \<^verbatim>\<open>view.Each\<close>: two entities, the three
  components added to each (the README's values are 5, Pepe, (1, 2) and 10, Tom, (3, 4)),
  the view over the three types, and \<^verbatim>\<open>Each\<close> with a callback that takes the entity. The
  result is the two entities and the calls of the callback.
\<close>

definition readme_each ::
  "(Entity, Index) placement \<Rightarrow> 'a \<Rightarrow> 'a \<Rightarrow> 'a \<Rightarrow> 'a \<Rightarrow> 'a \<Rightarrow> 'a \<Rightarrow>
     error + ((Entity \<times> Entity) \<times> (Entity \<times> 'a::default list) list)" where
  "readme_each place uuid1 tag1 point1 uuid2 tag2 point2 =
     (case CreateEntity Registry_init of Inl err \<Rightarrow> Inl err | Inr (entity1, r1) \<Rightarrow>
      case CreateEntity r1 of Inl err \<Rightarrow> Inl err | Inr (entity2, r2) \<Rightarrow>
      case AddComponent place r2 UUID_ID entity1 uuid1 of
        Inl err \<Rightarrow> Inl err | Inr (i3, r3) \<Rightarrow>
      case AddComponent place r3 TAG_ID entity1 tag1 of
        Inl err \<Rightarrow> Inl err | Inr (i4, r4) \<Rightarrow>
      case AddComponent place r4 POINT_ID entity1 point1 of
        Inl err \<Rightarrow> Inl err | Inr (i5, r5) \<Rightarrow>
      case AddComponent place r5 UUID_ID entity2 uuid2 of
        Inl err \<Rightarrow> Inl err | Inr (i6, r6) \<Rightarrow>
      case AddComponent place r6 TAG_ID entity2 tag2 of
        Inl err \<Rightarrow> Inl err | Inr (i7, r7) \<Rightarrow>
      case AddComponent place r7 POINT_ID entity2 point2 of
        Inl err \<Rightarrow> Inl err | Inr (i8, r8) \<Rightarrow>
      (let (view, r9) = Registry_View r8 UUID_ID [TAG_ID, POINT_ID]
       in case Each place view of
            Inl err \<Rightarrow> Inl err
          | Inr (calls, others) \<Rightarrow> Inr ((entity1, entity2), calls)))"

text \<open>
  Three entities, a tag for the first two, and the range-based loop over the view of the
  tags. The result is the three entities and the entities the loop visits.
\<close>

definition tag_view_entities ::
  "(Entity, Index) placement \<Rightarrow> error + ((Entity \<times> Entity \<times> Entity) \<times> Entity list)" where
  "tag_view_entities place =
     (case CreateEntity Registry_init of Inl err \<Rightarrow> Inl err | Inr (entity1, r1) \<Rightarrow>
      case CreateEntity r1 of Inl err \<Rightarrow> Inl err | Inr (entity2, r2) \<Rightarrow>
      case CreateEntity r2 of Inl err \<Rightarrow> Inl err | Inr (entity3, r3) \<Rightarrow>
      case AddComponent place r3 TAG_ID entity1 (TagComponent ''Pepe'') of
        Inl err \<Rightarrow> Inl err | Inr (i4, r4) \<Rightarrow>
      case AddComponent place r4 TAG_ID entity2 (TagComponent ''Tom'') of
        Inl err \<Rightarrow> Inl err | Inr (i5, r5) \<Rightarrow>
      (let (view, r6) = Registry_View r5 TAG_ID []
       in case View_entities view of
            Inl err \<Rightarrow> Inl err
          | Inr entities \<Rightarrow> Inr ((entity1, entity2, entity3), entities)))"

text \<open>
  A registry with the two stores above for the component types 0 and 1 and every entity
  in use, one with the ids 3 and 4 available, and one with every entity in use and no
  components.
\<close>

definition registry_two_stores :: "component Registry" where
  "registry_two_stores =
     \<lparr>m_AvailableEntities = [], m_LivingEntityCount = MAX_ENTITIES,
      m_ComponentArrays = [(0, store_7), (1, store_789)]\<rparr>"

definition registry_two_free :: "component Registry" where
  "registry_two_free =
     \<lparr>m_AvailableEntities = [3, 4], m_LivingEntityCount = MAX_ENTITIES - 2,
      m_ComponentArrays = []\<rparr>"

definition registry_full :: "component Registry" where
  "registry_full =
     \<lparr>m_AvailableEntities = [], m_LivingEntityCount = MAX_ENTITIES, m_ComponentArrays = []\<rparr>"

section \<open>Auxiliary lemmas\<close>

subsection \<open>Lemmas on the map operations\<close>

lemma um_policy_front: "um_policy place_front"
  by (simp add: um_policy_def place_front_def)

lemma um_policy_back: "um_policy place_back"
  by (simp add: um_policy_def place_back_def)

lemma um_policy_set:
  "um_policy place \<Longrightarrow> k \<notin> fst ` set xs \<Longrightarrow> set (place xs k v) = insert (k, v) (set xs)"
  unfolding um_policy_def by (metis set_mset_add_mset_insert set_mset_mset)

lemma um_policy_keys:
  "um_policy place \<Longrightarrow> k \<notin> fst ` set xs \<Longrightarrow> mset (map fst (place xs k v)) = add_mset k (mset (map fst xs))"
  unfolding um_policy_def by (metis fst_conv image_mset_add_mset mset_map)

lemma um_policy_distinct:
  "um_policy place \<Longrightarrow> k \<notin> fst ` set xs \<Longrightarrow> distinct (map fst xs) \<Longrightarrow> distinct (map fst (place xs k v))"
  using um_policy_keys[of place k xs v]
  by (metis distinct.simps(2) list.set_map mset.simps(2) mset_eq_imp_distinct_iff)

lemma um_policy_map_of:
  assumes "um_policy place" "k \<notin> fst ` set xs" "distinct (map fst xs)"
  shows "map_of (place xs k v) = (map_of xs)(k \<mapsto> v)"
proof -
  have d: "distinct (map fst ((k, v) # xs))" using assms by simp
  have "map_of (place xs k v) = map_of ((k, v) # xs)"
    using um_policy_distinct[OF assms] d um_policy_set[OF assms(1,2)]
    by (subst map_of_inject_set) auto
  then show ?thesis by simp
qed

lemma um_assign_map_of:
  "um_policy place \<Longrightarrow> distinct (map fst xs) \<Longrightarrow> map_of (um_assign place xs k v) = (map_of xs)(k \<mapsto> v)"
  by (simp add: um_assign_def um_contains_def update_conv' um_policy_map_of)

lemma um_assign_distinct:
  "um_policy place \<Longrightarrow> distinct (map fst xs) \<Longrightarrow> distinct (map fst (um_assign place xs k v))"
  by (simp add: um_assign_def um_contains_def distinct_update um_policy_distinct)

lemma um_assign_present_map_of:
  "um_contains xs k \<Longrightarrow> map_of (um_assign place xs k v) = (map_of xs)(k \<mapsto> v)"
  by (simp add: um_assign_def update_conv')

lemma um_assign_present_keys:
  "um_contains xs k \<Longrightarrow> map fst (um_assign place xs k v) = map fst xs"
  by (simp add: um_assign_def um_contains_def update_keys)

lemma um_erase_map_of: "map_of (um_erase xs k) = (map_of xs)(k := None)"
  by (simp add: um_erase_def delete_conv')

lemma um_erase_distinct: "distinct (map fst xs) \<Longrightarrow> distinct (map fst (um_erase xs k))"
  by (simp add: um_erase_def distinct_delete)

lemma um_contains_map_of: "um_contains xs k \<longleftrightarrow> map_of xs k \<noteq> None"
  by (simp add: um_contains_def map_of_eq_None_iff)

subsection \<open>Lemmas on the store operations\<close>

lemma SIZE_MAX_ge: "\<not> SIZE_MAX < MAX_ENTITIES"
  by (simp add: SIZE_MAX_def MAX_ENTITIES_def)

lemma um_policy_lookup_new:
  assumes "um_policy place" "k \<notin> fst ` set xs"
  shows "map_of (place xs k v) k = Some v"
proof -
  have s: "set (place xs k v) = insert (k, v) (set xs)"
    by (rule um_policy_set[OF assms])
  then have "k \<in> fst ` set (place xs k v)" by force
  then have "map_of (place xs k v) k \<noteq> None"
    by (simp add: map_of_eq_None_iff)
  then obtain v' where v': "map_of (place xs k v) k = Some v'"
    by blast
  then have "(k, v') \<in> set (place xs k v)" by (rule map_of_SomeD)
  with s assms(2) have "v' = v" by force
  with v' show ?thesis by simp
qed

lemma um_assign_lookup:
  assumes "um_policy place"
  shows "map_of (um_assign place xs k v) k = Some v"
  using assms by (simp add: um_assign_def um_contains_def update_conv' um_policy_lookup_new)

lemma um_assign_contains:
  assumes "um_policy place"
  shows "um_contains (um_assign place xs k v) k"
  using um_assign_lookup[OF assms, of xs k v] by (simp add: um_contains_map_of)

lemma um_index_present:
  "map_of xs k = Some v \<Longrightarrow> um_index place d xs k = (v, xs)"
  by (simp add: um_index_def)

lemma InsertData_ok:
  "m_Size s < MAX_ENTITIES \<Longrightarrow>
   InsertData place s e v =
     Inr (m_Size s,
          s\<lparr>m_ComponentArray := (m_ComponentArray s)(m_Size s := v),
            m_EntityToIndexMap := um_assign place (m_EntityToIndexMap s) e (m_Size s),
            m_IndexToEntityMap := (m_IndexToEntityMap s)(m_Size s \<mapsto> e),
            m_Size := m_Size s + 1\<rparr>)"
  by (simp add: InsertData_def Let_def)

lemma InsertData_fail: "\<not> m_Size s < MAX_ENTITIES \<Longrightarrow> InsertData place s e v = Inl OutOfBounds"
  by (simp add: InsertData_def Let_def)

lemma InsertData_InrD:
  assumes "InsertData place s e v = Inr (i, s')"
  shows "m_Size s < MAX_ENTITIES \<and> i = m_Size s \<and>
     s' = s\<lparr>m_ComponentArray := (m_ComponentArray s)(m_Size s := v),
            m_EntityToIndexMap := um_assign place (m_EntityToIndexMap s) e (m_Size s),
            m_IndexToEntityMap := (m_IndexToEntityMap s)(m_Size s \<mapsto> e),
            m_Size := m_Size s + 1\<rparr>"
  using assms by (auto simp: InsertData_def Let_def split: if_splits)

lemma GetData_present:
  "map_of (m_EntityToIndexMap s) e = Some i \<Longrightarrow> i < MAX_ENTITIES \<Longrightarrow>
   GetData place s e = Inr (m_ComponentArray s i, s)"
  by (simp add: GetData_def um_index_present)

lemma RemoveData_InrD:
  assumes "RemoveData place s e = Inr s'"
  shows "0 < m_Size s \<and> m_Size s' = m_Size s - 1"
  using assms
  by (auto simp: RemoveData_def Let_def SIZE_MAX_ge split: if_splits prod.splits option.splits)

lemma run_ops_size:
  "run_ops place s0 ops = Inr s \<Longrightarrow> m_Size s + removes ops = m_Size s0 + inserts ops"
proof (induction ops arbitrary: s0)
  case Nil
  then show ?case by simp
next
  case (Cons x xs)
  show ?case
  proof (cases x)
    case (Insert e v)
    with Cons.prems obtain i s1 where 1: "InsertData place s0 e v = Inr (i, s1)"
      and 2: "run_ops place s1 xs = Inr s"
      by (auto split: sum.splits)
    from InsertData_InrD[OF 1] have "m_Size s1 = m_Size s0 + 1" by simp
    with Cons.IH[OF 2] Insert show ?thesis by simp
  next
    case (Remove e)
    with Cons.prems obtain s1 where 1: "RemoveData place s0 e = Inr s1"
      and 2: "run_ops place s1 xs = Inr s"
      by (auto split: sum.splits)
    from RemoveData_InrD[OF 1] have "m_Size s1 + 1 = m_Size s0" by simp
    with Cons.IH[OF 2] Remove show ?thesis by simp
  qed
qed

lemma components_loop_down:
  "n \<le> MAX_ENTITIES \<Longrightarrow> components_loop arr n 0 = Inr (map arr (rev [0..<n]))"
proof (induction n)
  case 0
  show ?case by (subst components_loop.simps) simp
next
  case (Suc n)
  then have "components_loop arr n 0 = Inr (map arr (rev [0..<n]))" by simp
  moreover have "Iterator_deref arr (Suc n) = Inr (arr n)"
    using Suc.prems by (simp add: Iterator_deref_def)
  moreover have "Iterator_incr (Suc n) = n" by (simp add: Iterator_incr_def)
  ultimately show ?case
    by (subst components_loop.simps) simp
qed

lemma store_7_built:
  "run_ops place_front ComponentArray_init [Insert 7 (UUIDComponent 10)] = Inr store_7"
  by (simp add: InsertData_def ComponentArray_init_def store_7_def um_assign_def um_contains_def
      place_front_def MAX_ENTITIES_def)

lemma store_789_built:
  "run_ops place_front ComponentArray_init
     [Insert 7 (UUIDComponent 10), Insert 8 (UUIDComponent 20), Insert 9 (UUIDComponent 30)] = Inr store_789"
  by (simp add: InsertData_def ComponentArray_init_def store_789_def um_assign_def um_contains_def
      place_front_def MAX_ENTITIES_def numeral_2_eq_2)

subsection \<open>The packing invariant is kept\<close>

lemma store_inv_D:
  assumes "store_inv s"
  shows "m_Size s \<le> MAX_ENTITIES"
    and "distinct (map fst (m_EntityToIndexMap s))"
    and "\<And>i. i < m_Size s \<Longrightarrow> \<exists>e. m_IndexToEntityMap s i = Some e"
    and "\<And>i e. m_IndexToEntityMap s i = Some e \<Longrightarrow> i < m_Size s \<and> map_of (m_EntityToIndexMap s) e = Some i"
    and "\<And>e i. map_of (m_EntityToIndexMap s) e = Some i \<Longrightarrow> i < m_Size s \<and> m_IndexToEntityMap s i = Some e"
proof -
  note inv = assms[unfolded store_inv_def]
  show "m_Size s \<le> MAX_ENTITIES" "distinct (map fst (m_EntityToIndexMap s))"
    using inv by simp_all
  have d: "dom (m_IndexToEntityMap s) = {0..<m_Size s}" using inv by simp
  show "\<exists>e. m_IndexToEntityMap s i = Some e" if "i < m_Size s" for i
  proof -
    from that d have "i \<in> dom (m_IndexToEntityMap s)" by simp
    then show ?thesis by blast
  qed
  show "i < m_Size s \<and> map_of (m_EntityToIndexMap s) e = Some i"
    if h: "m_IndexToEntityMap s i = Some e" for i e
  proof -
    from h have "i \<in> dom (m_IndexToEntityMap s)" by blast
    with d have "i < m_Size s" by simp
    moreover from inv h have "map_of (m_EntityToIndexMap s) e = Some i" by blast
    ultimately show ?thesis by simp
  qed
  show "i < m_Size s \<and> m_IndexToEntityMap s i = Some e"
    if h: "map_of (m_EntityToIndexMap s) e = Some i" for e i
  proof -
    from inv h have g: "m_IndexToEntityMap s i = Some e" by blast
    then have "i \<in> dom (m_IndexToEntityMap s)" by blast
    with d have "i < m_Size s" by simp
    with g show ?thesis by simp
  qed
qed

lemma store_inv_I:
  assumes "m_Size s \<le> MAX_ENTITIES"
    and "distinct (map fst (m_EntityToIndexMap s))"
    and "\<And>i. i < m_Size s \<Longrightarrow> m_IndexToEntityMap s i \<noteq> None"
    and "\<And>i e. m_IndexToEntityMap s i = Some e \<Longrightarrow> i < m_Size s \<and> map_of (m_EntityToIndexMap s) e = Some i"
    and "\<And>e i. map_of (m_EntityToIndexMap s) e = Some i \<Longrightarrow> m_IndexToEntityMap s i = Some e"
  shows "store_inv s"
proof -
  have "dom (m_IndexToEntityMap s) = {0..<m_Size s}"
  proof (rule set_eqI)
    fix i
    show "i \<in> dom (m_IndexToEntityMap s) \<longleftrightarrow> i \<in> {0..<m_Size s}"
      using assms(3)[of i] assms(4)[of i] by auto
  qed
  then show ?thesis
    using assms unfolding store_inv_def by blast
qed

lemma store_inv_init: "store_inv ComponentArray_init"
  by (simp add: store_inv_def ComponentArray_init_def)

text \<open>What RemoveData does to a store that satisfies the invariant and holds the entity.\<close>

lemma RemoveData_present:
  assumes inv: "store_inv s" and ei: "map_of (m_EntityToIndexMap s) e = Some i"
  shows "\<exists>l. m_IndexToEntityMap s (m_Size s - 1) = Some l \<and>
           map_of (m_EntityToIndexMap s) l = Some (m_Size s - 1) \<and>
           RemoveData place s e =
             Inr (s\<lparr>m_ComponentArray := (m_ComponentArray s)(i := m_ComponentArray s (m_Size s - 1)),
                    m_EntityToIndexMap := um_erase (AList.update l i (m_EntityToIndexMap s)) e,
                    m_IndexToEntityMap := (m_IndexToEntityMap s)(i \<mapsto> l, m_Size s - 1 := None),
                    m_Size := m_Size s - 1\<rparr>)"
proof -
  note D = store_inv_D[OF inv]
  from D(5)[OF ei] have i: "i < m_Size s" by simp
  then have pos: "m_Size s \<noteq> 0" and last: "m_Size s - 1 < m_Size s" by simp_all
  from D(3)[OF last] obtain l where l: "m_IndexToEntityMap s (m_Size s - 1) = Some l" by blast
  from D(4)[OF l] have fl: "map_of (m_EntityToIndexMap s) l = Some (m_Size s - 1)" by simp
  then have cl: "um_contains (m_EntityToIndexMap s) l" by (simp add: um_contains_map_of)
  have b: "i < MAX_ENTITIES" "m_Size s - 1 < MAX_ENTITIES" using i D(1) by simp_all
  have "RemoveData place s e =
             Inr (s\<lparr>m_ComponentArray := (m_ComponentArray s)(i := m_ComponentArray s (m_Size s - 1)),
                    m_EntityToIndexMap := um_erase (AList.update l i (m_EntityToIndexMap s)) e,
                    m_IndexToEntityMap := (m_IndexToEntityMap s)(i \<mapsto> l, m_Size s - 1 := None),
                    m_Size := m_Size s - 1\<rparr>)"
    using pos b l cl by (simp add: RemoveData_def um_index_def ei um_assign_def Let_def)
  with l fl show ?thesis by blast
qed


lemma RemoveData_inv:
  assumes inv: "store_inv s" and has: "HasData s e"
  shows "\<exists>s'. RemoveData place s e = Inr s' \<and> store_inv s' \<and>
           contents s' = (contents s)(e := None) \<and>
           m_Size s' = m_Size s - 1 \<and>
           fst ` set (m_EntityToIndexMap s') \<subseteq> fst ` set (m_EntityToIndexMap s)"
proof -
  note D = store_inv_D[OF inv]
  let ?f = "map_of (m_EntityToIndexMap s)" and ?g = "m_IndexToEntityMap s"
  let ?n = "m_Size s"
  from has obtain i where ei: "?f e = Some i"
    by (auto simp: HasData_def um_contains_map_of)
  from RemoveData_present[OF inv ei, of place] obtain l s' where
    gl: "?g (?n - 1) = Some l" and fl: "?f l = Some (?n - 1)" and
    rem: "RemoveData place s e = Inr s'" and
    s': "s' = s\<lparr>m_ComponentArray := (m_ComponentArray s)(i := m_ComponentArray s (?n - 1)),
                    m_EntityToIndexMap := um_erase (AList.update l i (m_EntityToIndexMap s)) e,
                    m_IndexToEntityMap := (?g)(i \<mapsto> l, ?n - 1 := None),
                    m_Size := ?n - 1\<rparr>"
    by blast
  from D(5)[OF ei] have i: "i < ?n" and gi: "?g i = Some e" by simp_all
  have f': "map_of (m_EntityToIndexMap s') = (?f(l \<mapsto> i))(e := None)"
    by (simp add: s' um_erase_map_of update_conv')
  have g': "m_IndexToEntityMap s' = (?g)(i \<mapsto> l, ?n - 1 := None)"
    and n': "m_Size s' = ?n - 1"
    and a': "m_ComponentArray s' = (m_ComponentArray s)(i := m_ComponentArray s (?n - 1))"
    by (simp_all add: s')
  have le: "l = e \<longleftrightarrow> i = ?n - 1"
    using ei fl gi gl by auto
  have d': "distinct (map fst (m_EntityToIndexMap s'))"
    by (simp add: s' um_erase_distinct distinct_update D(2))
  have inv': "store_inv s'"
  proof (rule store_inv_I)
    show "m_Size s' \<le> MAX_ENTITIES" using D(1) n' by simp
    show "distinct (map fst (m_EntityToIndexMap s'))" by (rule d')
    show "m_IndexToEntityMap s' j \<noteq> None" if "j < m_Size s'" for j
    proof -
      from that n' have "j < ?n" "j \<noteq> ?n - 1" by simp_all
      with D(3)[of j] show ?thesis by (simp add: g')
    qed
    show "j < m_Size s' \<and> map_of (m_EntityToIndexMap s') x = Some j"
      if h: "m_IndexToEntityMap s' j = Some x" for j x
    proof (cases "j = i")
      case True
      with h have "j \<noteq> ?n - 1" "x = l" by (auto simp: g' split: if_splits)
      with True i le show ?thesis by (simp add: f' n')
    next
      case False
      with h have jl: "j \<noteq> ?n - 1" and gj: "?g j = Some x" by (auto simp: g' split: if_splits)
      from D(4)[OF gj] have "j < ?n" "?f x = Some j" by simp_all
      moreover from this False jl ei fl have "x \<noteq> e" "x \<noteq> l" by auto
      ultimately show ?thesis using jl by (simp add: f' n')
    qed
    show "m_IndexToEntityMap s' j = Some x"
      if h: "map_of (m_EntityToIndexMap s') x = Some j" for x j
    proof (cases "x = l")
      case True
      with h have "x \<noteq> e" "j = i" by (auto simp: f' split: if_splits)
      with True le show ?thesis by (simp add: g')
    next
      case False
      with h have xe: "x \<noteq> e" and fx: "?f x = Some j" by (auto simp: f' split: if_splits)
      from D(5)[OF fx] have gj: "?g j = Some x" by simp
      with False xe gi gl have "j \<noteq> i" "j \<noteq> ?n - 1" by auto
      with gj show ?thesis by (simp add: g')
    qed
  qed
  have c': "contents s' = (contents s)(e := None)"
  proof (rule ext)
    fix x
    show "contents s' x = ((contents s)(e := None)) x"
    proof (cases "x = e \<or> x = l")
      case True
      then show ?thesis using fl le by (auto simp: contents_def f' a')
    next
      case False
      then have "map_of (m_EntityToIndexMap s') x = ?f x" by (simp add: f')
      moreover have "?f x \<noteq> Some i"
      proof
        assume "?f x = Some i"
        from D(5)[OF this] gi False show False by simp
      qed
      ultimately show ?thesis using False
        by (cases "?f x") (simp_all add: contents_def a')
    qed
  qed
  have k': "fst ` set (m_EntityToIndexMap s') \<subseteq> fst ` set (m_EntityToIndexMap s)"
  proof
    fix x assume "x \<in> fst ` set (m_EntityToIndexMap s')"
    then have "map_of (m_EntityToIndexMap s') x \<noteq> None" by (simp add: map_of_eq_None_iff)
    then have "?f x \<noteq> None" using fl by (auto simp: f' split: if_splits)
    then show "x \<in> fst ` set (m_EntityToIndexMap s)" by (simp add: map_of_eq_None_iff)
  qed
  from rem inv' c' n' k' show ?thesis by blast
qed

lemma InsertData_inv:
  assumes pol: "um_policy place" and inv: "store_inv s" and abs: "\<not> HasData s e"
    and room: "m_Size s < MAX_ENTITIES"
  shows "\<exists>s'. InsertData place s e v = Inr (m_Size s, s') \<and> store_inv s' \<and>
           contents s' = (contents s)(e \<mapsto> v) \<and>
           m_Size s' = m_Size s + 1 \<and>
           fst ` set (m_EntityToIndexMap s') = insert e (fst ` set (m_EntityToIndexMap s))"
proof -
  note D = store_inv_D[OF inv]
  let ?f = "map_of (m_EntityToIndexMap s)" and ?g = "m_IndexToEntityMap s"
  let ?n = "m_Size s"
  obtain s' where s': "s' = s\<lparr>m_ComponentArray := (m_ComponentArray s)(?n := v),
            m_EntityToIndexMap := um_assign place (m_EntityToIndexMap s) e ?n,
            m_IndexToEntityMap := (?g)(?n \<mapsto> e),
            m_Size := ?n + 1\<rparr>"
    by blast
  have ins: "InsertData place s e v = Inr (?n, s')"
    unfolding s' by (rule InsertData_ok[OF room])
  have fe: "?f e = None" using abs by (simp add: HasData_def um_contains_map_of)
  have f': "map_of (m_EntityToIndexMap s') = ?f(e \<mapsto> ?n)"
    by (simp add: s' um_assign_map_of[OF pol D(2)])
  have g': "m_IndexToEntityMap s' = (?g)(?n \<mapsto> e)"
    and n': "m_Size s' = ?n + 1"
    and a': "m_ComponentArray s' = (m_ComponentArray s)(?n := v)"
    by (simp_all add: s')
  have inv': "store_inv s'"
  proof (rule store_inv_I)
    show "m_Size s' \<le> MAX_ENTITIES" using room by (simp add: n')
    show "distinct (map fst (m_EntityToIndexMap s'))"
      by (simp add: s' um_assign_distinct[OF pol D(2)])
    show "m_IndexToEntityMap s' j \<noteq> None" if "j < m_Size s'" for j
      using that D(3)[of j] by (cases "j = ?n") (auto simp: g' n')
    show "j < m_Size s' \<and> map_of (m_EntityToIndexMap s') x = Some j"
      if h: "m_IndexToEntityMap s' j = Some x" for j x
    proof (cases "j = ?n")
      case True
      with h show ?thesis by (simp add: f' g' n')
    next
      case False
      with h have gj: "?g j = Some x" by (simp add: g')
      from D(4)[OF gj] fe have "j < ?n" "?f x = Some j" "x \<noteq> e" by auto
      then show ?thesis by (simp add: f' n')
    qed
    show "m_IndexToEntityMap s' j = Some x"
      if h: "map_of (m_EntityToIndexMap s') x = Some j" for x j
    proof (cases "x = e")
      case True
      with h show ?thesis by (simp add: f' g')
    next
      case False
      with h have fx: "?f x = Some j" by (simp add: f')
      from D(5)[OF fx] show ?thesis by (auto simp: g')
    qed
  qed
  have c': "contents s' = (contents s)(e \<mapsto> v)"
  proof (rule ext)
    fix x
    show "contents s' x = ((contents s)(e \<mapsto> v)) x"
    proof (cases "x = e")
      case True
      then show ?thesis by (simp add: contents_def f' a')
    next
      case False
      have "?f x \<noteq> Some ?n"
      proof
        assume "?f x = Some ?n"
        from D(5)[OF this] show False by simp
      qed
      with False show ?thesis
        by (cases "?f x") (simp_all add: contents_def f' a')
    qed
  qed
  have k': "fst ` set (m_EntityToIndexMap s') = insert e (fst ` set (m_EntityToIndexMap s))"
    using abs by (simp add: s' HasData_def um_assign_def um_policy_set[OF pol] um_contains_def)
  from ins inv' c' k' n' show ?thesis by blast
qed

lemma contents_None: "contents s e = None \<longleftrightarrow> \<not> HasData s e"
  by (simp add: contents_def HasData_def um_contains_map_of)

lemma HasData_contents: "HasData s e \<longleftrightarrow> contents s e \<noteq> None"
  by (simp add: contents_None)

lemma store_room:
  assumes inv: "store_inv s" and val: "entities_valid s"
    and e: "e < MAX_ENTITIES" and abs: "\<not> HasData s e"
  shows "m_Size s < MAX_ENTITIES"
proof -
  note D = store_inv_D[OF inv]
  let ?h = "\<lambda>i. the (m_IndexToEntityMap s i)"
  have inj: "inj_on ?h {0..<m_Size s}"
  proof (rule inj_onI)
    fix i j assume ij: "i \<in> {0..<m_Size s}" "j \<in> {0..<m_Size s}" and eq: "?h i = ?h j"
    from ij D(3)[of i] D(3)[of j] obtain x y where
      x: "m_IndexToEntityMap s i = Some x" and y: "m_IndexToEntityMap s j = Some y" by auto
    with eq have "x = y" by simp
    with D(4)[OF x] D(4)[OF y] show "i = j" by simp
  qed
  have sub: "?h ` {0..<m_Size s} \<subseteq> {0..<MAX_ENTITIES} - {e}"
  proof
    fix x assume "x \<in> ?h ` {0..<m_Size s}"
    then obtain i where i: "i < m_Size s" and xi: "x = ?h i" by auto
    from D(3)[OF i] obtain y where y: "m_IndexToEntityMap s i = Some y" by blast
    with xi have "x = y" by simp
    with D(4)[OF y] have fx: "map_of (m_EntityToIndexMap s) x = Some i" by simp
    then have k: "x \<in> fst ` set (m_EntityToIndexMap s)"
      by (metis map_of_eq_None_iff option.distinct(1))
    with val have "x < MAX_ENTITIES" by (simp add: entities_valid_def HasData_def um_contains_def)
    moreover from k abs have "x \<noteq> e" by (auto simp: HasData_def um_contains_def)
    ultimately show "x \<in> {0..<MAX_ENTITIES} - {e}" by simp
  qed
  have "card {0..<m_Size s} \<le> card ({0..<MAX_ENTITIES} - {e})"
    by (rule card_inj_on_le[OF inj sub]) simp
  also have "\<dots> = MAX_ENTITIES - 1" using e by simp
  finally show ?thesis using e by simp
qed

lemma run_ops_inv:
  assumes pol: "um_policy place"
  shows "store_inv s \<Longrightarrow> entities_valid s \<Longrightarrow> well_targeted (contents s) ops \<Longrightarrow>
         \<exists>s'. run_ops place s ops = Inr s' \<and> store_inv s' \<and> entities_valid s' \<and>
               contents s' = spec_ops (contents s) ops"
proof (induction ops arbitrary: s)
  case Nil
  then show ?case by simp
next
  case (Cons x xs)
  show ?case
  proof (cases x)
    case (Insert e v)
    with Cons.prems have abs: "\<not> HasData s e" and e: "e < MAX_ENTITIES"
      and wt: "well_targeted ((contents s)(e \<mapsto> v)) xs"
      by (simp_all add: contents_None)
    from store_room[OF Cons.prems(1,2) e abs] have room: "m_Size s < MAX_ENTITIES" .
    from InsertData_inv[OF pol Cons.prems(1) abs room, of v] obtain s1 where
      1: "InsertData place s e v = Inr (m_Size s, s1)" and 2: "store_inv s1"
      and 3: "contents s1 = (contents s)(e \<mapsto> v)"
      and 4: "fst ` set (m_EntityToIndexMap s1) = insert e (fst ` set (m_EntityToIndexMap s))"
      by blast
    from e Cons.prems(2) have 5: "entities_valid s1"
      by (simp add: entities_valid_def HasData_contents 3)
    from wt 3 have "well_targeted (contents s1) xs" by simp
    from Cons.IH[OF 2 5 this] have "\<exists>s'. run_ops place s1 xs = Inr s' \<and> store_inv s' \<and>
        entities_valid s' \<and> contents s' = spec_ops ((contents s)(e \<mapsto> v)) xs"
      unfolding 3 .
    with 1 Insert show ?thesis by simp
  next
    case (Remove e)
    with Cons.prems have has: "HasData s e"
      and wt: "well_targeted ((contents s)(e := None)) xs"
      using contents_None[of s e] by simp_all
    from RemoveData_inv[OF Cons.prems(1) has, of place] obtain s1 where
      1: "RemoveData place s e = Inr s1" and 2: "store_inv s1"
      and 3: "contents s1 = (contents s)(e := None)"
      and 4: "fst ` set (m_EntityToIndexMap s1) \<subseteq> fst ` set (m_EntityToIndexMap s)"
      by blast
    from Cons.prems(2) have 5: "entities_valid s1"
      by (simp add: entities_valid_def HasData_contents 3)
    from wt 3 have "well_targeted (contents s1) xs" by simp
    from Cons.IH[OF 2 5 this] have "\<exists>s'. run_ops place s1 xs = Inr s' \<and> store_inv s' \<and>
        entities_valid s' \<and> contents s' = spec_ops ((contents s)(e := None)) xs"
      unfolding 3 .
    with 1 Remove show ?thesis by simp
  qed
qed

lemma well_targeted_take: "well_targeted m ops \<Longrightarrow> well_targeted m (take n ops)"
proof (induction ops arbitrary: m n)
  case Nil
  then show ?case by simp
next
  case (Cons x xs)
  then show ?case by (cases n; cases x) auto
qed

lemma contents_init: "contents ComponentArray_init = Map.empty"
  by (rule ext) (simp add: contents_def ComponentArray_init_def)

lemma store_inv_789: "store_inv store_789"
  by (auto simp: store_inv_def store_789_def MAX_ENTITIES_def split: if_splits)

subsection \<open>Lemmas on the registry\<close>

lemma MAX_ENTITIES_le_UINT32_MAX: "MAX_ENTITIES < UINT32_MAX"
  by (simp add: MAX_ENTITIES_def UINT32_MAX_def)

lemma push_ids_eq: "push_ids i q = q @ [i..<MAX_ENTITIES]"
proof (induction i q rule: push_ids.induct)
  case (1 i q)
  show ?case
  proof (cases "i < MAX_ENTITIES")
    case True
    then have "push_ids i q = push_ids (i + 1) (q @ [i])"
      by (subst push_ids.simps) simp
    also have "\<dots> = (q @ [i]) @ [i + 1..<MAX_ENTITIES]"
      using True by (rule "1.IH")
    also have "\<dots> = q @ [i..<MAX_ENTITIES]"
      using True by (simp add: upt_conv_Cons)
    finally show ?thesis .
  next
    case False
    then show ?thesis by (subst push_ids.simps) simp
  qed
qed

lemma Registry_init_queue: "m_AvailableEntities Registry_init = [0..<MAX_ENTITIES]"
  by (simp add: Registry_init_def push_ids_eq)

lemma CreateEntity_front:
  assumes "m_LivingEntityCount r < MAX_ENTITIES" and "m_AvailableEntities r = e # q"
  shows "CreateEntity r =
           Inr (e, r\<lparr>m_AvailableEntities := q, m_LivingEntityCount := m_LivingEntityCount r + 1\<rparr>)"
  using assms MAX_ENTITIES_le_UINT32_MAX by (simp add: CreateEntity_def)

lemma create_n_range:
  "m_AvailableEntities r = [i..<MAX_ENTITIES] \<Longrightarrow> m_LivingEntityCount r = i \<Longrightarrow>
   i + k \<le> MAX_ENTITIES \<Longrightarrow>
   create_n k r =
     Inr ([i..<i + k],
          r\<lparr>m_AvailableEntities := [i + k..<MAX_ENTITIES], m_LivingEntityCount := i + k\<rparr>)"
proof (induction k arbitrary: i r)
  case 0
  then show ?case by simp
next
  case (Suc k)
  let ?r1 = "r\<lparr>m_AvailableEntities := [Suc i..<MAX_ENTITIES], m_LivingEntityCount := Suc i\<rparr>"
  from Suc.prems have lt: "i < MAX_ENTITIES" by simp
  then have q: "m_AvailableEntities r = i # [Suc i..<MAX_ENTITIES]"
    using Suc.prems(1) by (simp add: upt_conv_Cons)
  have c: "CreateEntity r = Inr (i, ?r1)"
    using CreateEntity_front[OF _ q] lt Suc.prems(2) by simp
  have "create_n k ?r1 =
     Inr ([Suc i..<Suc i + k],
          ?r1\<lparr>m_AvailableEntities := [Suc i + k..<MAX_ENTITIES], m_LivingEntityCount := Suc i + k\<rparr>)"
    using Suc.prems(3) by (intro Suc.IH) simp_all
  with c lt show ?case by (simp add: upt_conv_Cons)
qed

lemma create_n_init:
  assumes "k \<le> MAX_ENTITIES"
  shows "create_n k Registry_init =
           Inr ([0..<k],
                Registry_init\<lparr>m_AvailableEntities := [k..<MAX_ENTITIES], m_LivingEntityCount := k\<rparr>)"
  using create_n_range[of Registry_init 0 k] assms
  by (simp add: Registry_init_queue) (simp add: Registry_init_def)

lemma alloc_inv_init: "alloc_inv Registry_init"
  by (simp add: alloc_inv_def Registry_init_queue) (simp add: Registry_init_def)

lemma alloc_inv_queue: "alloc_inv r \<Longrightarrow> m_LivingEntityCount r < MAX_ENTITIES \<longleftrightarrow> m_AvailableEntities r \<noteq> []"
  by (cases "m_AvailableEntities r") (auto simp: alloc_inv_def)

lemma CreateEntity_alloc:
  assumes "alloc_inv r"
  shows "(CreateEntity r = Inl CapacityExceeded \<longleftrightarrow> m_LivingEntityCount r = MAX_ENTITIES) \<and>
         (m_LivingEntityCount r \<noteq> MAX_ENTITIES \<longrightarrow>
            (\<exists>r'. CreateEntity r = Inr (hd (m_AvailableEntities r), r') \<and> alloc_inv r' \<and>
                  m_AvailableEntities r' = tl (m_AvailableEntities r) \<and>
                  m_LivingEntityCount r' = m_LivingEntityCount r + 1 \<and>
                  m_ComponentArrays r' = m_ComponentArrays r))"
proof (cases "m_AvailableEntities r")
  case Nil
  with assms have "m_LivingEntityCount r = MAX_ENTITIES" by (simp add: alloc_inv_def)
  then show ?thesis by (simp add: CreateEntity_def)
next
  case (Cons e q)
  with assms have lt: "m_LivingEntityCount r < MAX_ENTITIES" by (simp add: alloc_inv_def)
  let ?r' = "r\<lparr>m_AvailableEntities := q, m_LivingEntityCount := m_LivingEntityCount r + 1\<rparr>"
  have c: "CreateEntity r = Inr (e, ?r')" by (rule CreateEntity_front[OF lt Cons])
  have "alloc_inv ?r'" using assms Cons by (auto simp: alloc_inv_def)
  with c lt Cons show ?thesis by simp
qed

lemma OnEntityDestroyed_inv:
  assumes "store_inv s"
  shows "\<exists>s'. OnEntityDestroyed place s e = Inr s' \<and> store_inv s' \<and> \<not> HasData s' e"
proof (cases "HasData s e")
  case True
  from RemoveData_inv[OF assms True, of place] obtain s' where
    "RemoveData place s e = Inr s'" "store_inv s'" "contents s' = (contents s)(e := None)"
    by blast
  moreover from this have "\<not> HasData s' e" by (simp add: HasData_contents)
  ultimately show ?thesis using True by (simp add: OnEntityDestroyed_def)
next
  case False
  with assms show ?thesis by (simp add: OnEntityDestroyed_def)
qed

lemma notify_arrays_inv:
  "list_all (\<lambda>(t, s). store_inv s) arrays \<Longrightarrow>
   \<exists>arrays'. notify_arrays place arrays e = Inr arrays' \<and>
      list_all (\<lambda>(t, s). store_inv s) arrays' \<and>
      list_all2 (\<lambda>(t, s) (t', s'). t' = t \<and> OnEntityDestroyed place s e = Inr s' \<and> \<not> HasData s' e)
        arrays arrays'"
proof (induction arrays)
  case Nil
  then show ?case by simp
next
  case (Cons a arrays)
  obtain t s where a: "a = (t, s)" by (cases a)
  with Cons.prems have "store_inv s" and rest: "list_all (\<lambda>(t, s). store_inv s) arrays" by simp_all
  from OnEntityDestroyed_inv[OF this(1), of place e] obtain s' where
    s': "OnEntityDestroyed place s e = Inr s'" "store_inv s'" "\<not> HasData s' e" by blast
  from Cons.IH[OF rest] obtain arrays' where
    r: "notify_arrays place arrays e = Inr arrays'" "list_all (\<lambda>(t, s). store_inv s) arrays'"
      "list_all2 (\<lambda>(t, s) (t', s'). t' = t \<and> OnEntityDestroyed place s e = Inr s' \<and> \<not> HasData s' e)
        arrays arrays'"
    by blast
  show ?case
    by (rule exI[of _ "(t, s') # arrays'"]) (simp add: a s' r)
qed

lemma notified_lookup:
  assumes "list_all2 (\<lambda>(t, s) (t', s'). t' = t \<and> OnEntityDestroyed place s e = Inr s' \<and> \<not> HasData s' e)
        arrays arrays'"
    and "map_of arrays' t = Some s'"
  shows "\<not> HasData s' e"
  using assms
proof (induction arrays arrays' rule: list_all2_induct)
  case Nil
  then show ?case by simp
next
  case (Cons x xs y ys)
  then show ?case by (cases x; cases y) (auto split: if_splits)
qed

lemma HasData_init: "\<not> HasData ComponentArray_init e"
  by (simp add: HasData_def um_contains_def ComponentArray_init_def)

lemma HasComponent_lookup:
  "fst (HasComponent r t e) \<longleftrightarrow>
     (case map_of (m_ComponentArrays r) t of None \<Rightarrow> False | Some s \<Rightarrow> HasData s e)"
  by (simp add: HasComponent_def GetComponentArray_def HasData_init split: option.splits)

lemma DestroyEntity_inv:
  assumes arr: "arrays_inv r" and e: "e < MAX_ENTITIES"
  shows "\<exists>r'. DestroyEntity place r e = Inr r' \<and> arrays_inv r' \<and>
           m_AvailableEntities r' = m_AvailableEntities r @ [e] \<and>
           m_LivingEntityCount r' =
             (if m_LivingEntityCount r = 0 then UINT32_MAX else m_LivingEntityCount r - 1) \<and>
           list_all2 (\<lambda>(t, s) (t', s'). t' = t \<and> OnEntityDestroyed place s e = Inr s' \<and> \<not> HasData s' e)
             (m_ComponentArrays r) (m_ComponentArrays r') \<and>
           (\<forall>t. \<not> fst (HasComponent r' t e))"
proof -
  from notify_arrays_inv[OF arr[unfolded arrays_inv_def], of place e] obtain arrays' where
    n: "notify_arrays place (m_ComponentArrays r) e = Inr arrays'"
      "list_all (\<lambda>(t, s). store_inv s) arrays'"
      "list_all2 (\<lambda>(t, s) (t', s'). t' = t \<and> OnEntityDestroyed place s e = Inr s' \<and> \<not> HasData s' e)
        (m_ComponentArrays r) arrays'"
    by blast
  let ?r' = "r\<lparr>m_ComponentArrays := arrays',
               m_AvailableEntities := m_AvailableEntities r @ [e],
               m_LivingEntityCount :=
                 (if m_LivingEntityCount r = 0 then UINT32_MAX else m_LivingEntityCount r - 1)\<rparr>"
  have d: "DestroyEntity place r e = Inr ?r'"
    using e n(1) by (simp add: DestroyEntity_def Registry_OnEntityDestroyed_def)
  have h: "\<forall>t. \<not> fst (HasComponent ?r' t e)"
    using notified_lookup[OF n(3)] by (auto simp: HasComponent_lookup split: option.splits)
  show ?thesis
    by (rule exI[of _ ?r']) (use d n h in \<open>simp add: arrays_inv_def\<close>)
qed

lemma create_n_arrays:
  "create_n k r = Inr (ids, r') \<Longrightarrow> m_ComponentArrays r' = m_ComponentArrays r"
proof (induction k arbitrary: r ids)
  case 0
  then show ?case by simp
next
  case (Suc k)
  from Suc.prems obtain e r1 ids1 where
    c: "CreateEntity r = Inr (e, r1)" and n: "create_n k r1 = Inr (ids1, r')"
    by (auto split: sum.splits)
  from c have "m_ComponentArrays r1 = m_ComponentArrays r"
    by (auto simp: CreateEntity_def split: if_splits list.splits)
  with Suc.IH[OF n] show ?case by simp
qed

lemma HasComponent_arrays:
  "m_ComponentArrays r' = m_ComponentArrays r \<Longrightarrow> fst (HasComponent r' t e) = fst (HasComponent r t e)"
  by (simp add: HasComponent_lookup)

lemma store_inv_7: "store_inv store_7"
  by (auto simp: store_inv_def store_7_def MAX_ENTITIES_def split: if_splits)

lemma alloc_inv_full: "alloc_inv registry_full"
  by (simp add: alloc_inv_def registry_full_def)

lemma full_then_recycle:
  fixes r :: "'a::default Registry"
  assumes a: "alloc_inv r" and arr: "arrays_inv r"
    and full: "m_LivingEntityCount r = MAX_ENTITIES" and e: "e < MAX_ENTITIES"
  shows "CreateEntity r = Inl CapacityExceeded \<and>
         (\<exists>r1 r2. DestroyEntity place r e = Inr r1 \<and>
            m_AvailableEntities r1 = m_AvailableEntities r @ [e] \<and>
            CreateEntity r1 = Inr (e, r2))"
proof -
  from a full have q: "m_AvailableEntities r = []" by (simp add: alloc_inv_def)
  from DestroyEntity_inv[OF arr e, of place] obtain r1 where
    d: "DestroyEntity place r e = Inr r1" "m_AvailableEntities r1 = m_AvailableEntities r @ [e]"
       "m_LivingEntityCount r1 =
             (if m_LivingEntityCount r = 0 then UINT32_MAX else m_LivingEntityCount r - 1)"
    by blast
  from d(3) full e have c: "m_LivingEntityCount r1 < MAX_ENTITIES" by simp
  from d(2) q have q1: "m_AvailableEntities r1 = e # []" by simp
  from CreateEntity_front[OF c q1] d(1,2) full show ?thesis
    by (simp add: CreateEntity_def)
qed

text \<open>Destroying an entity that is in use keeps the counter and the queue consistent.\<close>

lemma DestroyEntity_alloc_inv:
  fixes r :: "'a::default Registry"
  assumes a: "alloc_inv r" and arr: "arrays_inv r"
    and e: "e < MAX_ENTITIES" and live: "e \<notin> set (m_AvailableEntities r)"
  shows "\<exists>r'. DestroyEntity place r e = Inr r' \<and> alloc_inv r' \<and> arrays_inv r' \<and>
           m_LivingEntityCount r' = m_LivingEntityCount r - 1 \<and> 0 < m_LivingEntityCount r"
proof -
  let ?q = "m_AvailableEntities r"
  from a have d: "distinct ?q" and sub: "set ?q \<subseteq> {0..<MAX_ENTITIES}"
    and cnt: "m_LivingEntityCount r + length ?q = MAX_ENTITIES"
    by (simp_all add: alloc_inv_def)
  from sub live e have "set ?q \<subseteq> {0..<MAX_ENTITIES} - {e}" by auto
  then have "card (set ?q) \<le> card ({0..<MAX_ENTITIES} - {e})"
    by (intro card_mono) simp_all
  also have "\<dots> = MAX_ENTITIES - 1" using e by simp
  finally have "length ?q \<le> MAX_ENTITIES - 1" using d by (simp add: distinct_card)
  with cnt e have pos: "0 < m_LivingEntityCount r" by simp
  from DestroyEntity_inv[OF arr e, of place] obtain r' where
    r': "DestroyEntity place r e = Inr r'" "arrays_inv r'"
      "m_AvailableEntities r' = ?q @ [e]"
      "m_LivingEntityCount r' =
         (if m_LivingEntityCount r = 0 then UINT32_MAX else m_LivingEntityCount r - 1)"
    by blast
  have "alloc_inv r'"
    using d sub cnt e live pos r'(3,4) by (auto simp: alloc_inv_def)
  with r' pos show ?thesis by auto
qed

text \<open>The queue is emptied from its front, and a destroyed id leaves it last.\<close>

lemma create_n_take:
  "alloc_inv r \<Longrightarrow> k \<le> length (m_AvailableEntities r) \<Longrightarrow>
   \<exists>r'. create_n k r = Inr (take k (m_AvailableEntities r), r') \<and>
        m_AvailableEntities r' = drop k (m_AvailableEntities r) \<and>
        m_LivingEntityCount r' = m_LivingEntityCount r + k \<and>
        m_ComponentArrays r' = m_ComponentArrays r \<and> alloc_inv r'"
proof (induction k arbitrary: r)
  case 0
  then show ?case by simp
next
  case (Suc k)
  from Suc.prems obtain e q where q: "m_AvailableEntities r = e # q"
    by (cases "m_AvailableEntities r") auto
  with Suc.prems(1) have ne: "m_LivingEntityCount r \<noteq> MAX_ENTITIES"
    by (auto simp: alloc_inv_def)
  from CreateEntity_alloc[OF Suc.prems(1)] ne q obtain r1 where
    c: "CreateEntity r = Inr (e, r1)" and a1: "alloc_inv r1"
    and q1: "m_AvailableEntities r1 = q"
    and n1: "m_LivingEntityCount r1 = m_LivingEntityCount r + 1"
    and s1: "m_ComponentArrays r1 = m_ComponentArrays r"
    by auto
  from Suc.prems(2) q q1 have "k \<le> length (m_AvailableEntities r1)" by simp
  from Suc.IH[OF a1 this] obtain r' where
    r': "create_n k r1 = Inr (take k q, r')" "m_AvailableEntities r' = drop k q"
      "m_LivingEntityCount r' = m_LivingEntityCount r1 + k"
      "m_ComponentArrays r' = m_ComponentArrays r1" "alloc_inv r'"
    by (auto simp: q1)
  show ?case
    by (rule exI[of _ r']) (simp add: c r' q n1 s1)
qed

lemma destroy_then_fifo:
  fixes r :: "'a::default Registry"
  assumes a: "alloc_inv r" and arr: "arrays_inv r"
    and e: "e < MAX_ENTITIES" and live: "e \<notin> set (m_AvailableEntities r)"
  shows "\<exists>r1 r2. DestroyEntity place r e = Inr r1 \<and>
           m_AvailableEntities r1 = m_AvailableEntities r @ [e] \<and>
           create_n (length (m_AvailableEntities r) + 1) r1 = Inr (m_AvailableEntities r @ [e], r2)"
proof -
  from DestroyEntity_alloc_inv[OF a arr e live, of place] obtain r1 where
    d: "DestroyEntity place r e = Inr r1" and a1: "alloc_inv r1" by blast
  from DestroyEntity_inv[OF arr e, of place] d have
    q1: "m_AvailableEntities r1 = m_AvailableEntities r @ [e]" by auto
  from create_n_take[OF a1, of "length (m_AvailableEntities r) + 1"] q1 obtain r2 where
    "create_n (length (m_AvailableEntities r) + 1) r1 = Inr (m_AvailableEntities r @ [e], r2)"
    by auto
  with d q1 show ?thesis by blast
qed

lemma alloc_inv_two_free: "alloc_inv registry_two_free"
  by (simp add: alloc_inv_def registry_two_free_def MAX_ENTITIES_def)

subsection \<open>Lemmas on views and the usage example\<close>

lemma GetComponentArray_again:
  "fst (GetComponentArray (snd (GetComponentArray r t)) t') = fst (GetComponentArray r t')"
  by (auto simp: GetComponentArray_def split: option.splits if_splits)

lemma GetComponentArrays_lookup:
  "fst (GetComponentArray (snd (GetComponentArrays r ts)) t') = fst (GetComponentArray r t')"
proof (induction ts arbitrary: r)
  case Nil
  then show ?case by simp
next
  case (Cons t ts)
  have "fst (GetComponentArray (snd (GetComponentArrays r (t # ts))) t') =
        fst (GetComponentArray (snd (GetComponentArrays (snd (GetComponentArray r t)) ts)) t')"
    by (simp add: split_beta Let_def)
  also have "\<dots> = fst (GetComponentArray (snd (GetComponentArray r t)) t')"
    by (rule Cons.IH)
  also have "\<dots> = fst (GetComponentArray r t')"
    by (rule GetComponentArray_again)
  finally show ?case .
qed

lemma GetComponentArrays_fst:
  "fst (GetComponentArrays r ts) = map (\<lambda>t. fst (GetComponentArray r t)) ts"
proof (induction ts arbitrary: r)
  case Nil
  then show ?case by simp
next
  case (Cons t ts)
  have "fst (GetComponentArrays r (t # ts)) =
        fst (GetComponentArray r t) # fst (GetComponentArrays (snd (GetComponentArray r t)) ts)"
    by (simp add: split_beta Let_def)
  also have "fst (GetComponentArrays (snd (GetComponentArray r t)) ts) =
        map (\<lambda>t'. fst (GetComponentArray (snd (GetComponentArray r t)) t')) ts"
    by (rule Cons.IH)
  finally show ?case by (simp add: GetComponentArray_again)
qed

lemma Registry_View_arrays:
  "m_Arrays (fst (Registry_View r t ts)) = map (\<lambda>t'. fst (GetComponentArray r t')) (t # ts)"
  by (simp add: Registry_View_def split_beta Let_def m_Arrays_def GetComponentArrays_fst
      GetComponentArray_again)

lemma Registry_View_lookup:
  "fst (GetComponentArray (snd (Registry_View r t ts)) t') = fst (GetComponentArray r t')"
  by (simp add: Registry_View_def split_beta Let_def GetComponentArrays_lookup GetComponentArray_again)

lemma HasComponent_fst: "fst (HasComponent r t e) = HasData (fst (GetComponentArray r t)) e"
  by (simp add: HasComponent_def split_beta)

lemma entities_loop_end: "entities_loop it it = Inr []"
  by (subst entities_loop.simps) simp

lemma entities_loop_step:
  "entities_loop (node # it) [] =
     (case entities_loop it [] of Inl err \<Rightarrow> Inl err | Inr entities \<Rightarrow> Inr (fst node # entities))"
  by (subst entities_loop.simps) (simp add: EntityIterator_deref_def EntityIterator_incr_def)

lemma entities_loop_keys: "entities_loop it [] = Inr (map fst it)"
  by (induction it) (simp_all add: entities_loop_end entities_loop_step)

lemma Each_loop_end: "Each_loop place arr it it compIt others = Inr ([], others)"
  by (subst Each_loop.simps) simp

lemma Each_loop_step:
  "Each_loop place arr (node # entityIt) [] compIt others =
     (case Iterator_deref arr compIt of
        Inl err \<Rightarrow> Inl err
      | Inr v \<Rightarrow>
          (case GetAsTuple place others (fst node) of
             Inl err \<Rightarrow> Inl err
           | Inr (vs, others') \<Rightarrow>
               (case Each_loop place arr entityIt [] (Iterator_incr compIt) others' of
                  Inl err \<Rightarrow> Inl err
                | Inr (calls, others'') \<Rightarrow> Inr ((fst node, v # vs) # calls, others''))))"
proof -
  have i: "EntityIterator_incr (node # entityIt) = entityIt"
    by (simp add: EntityIterator_incr_def)
  have d: "EntityIterator_deref (node # entityIt) = Inr (fst node)"
    by (simp add: EntityIterator_deref_def)
  show ?thesis
    by (subst Each_loop.simps) (simp only: i d list.distinct if_False sum.case)
qed

lemma MAX_ENTITIES_gt: "0 < MAX_ENTITIES" "Suc 0 < MAX_ENTITIES" "Suc (Suc 0) < MAX_ENTITIES"
  by (simp_all add: MAX_ENTITIES_def)

lemma Registry_init_eq:
  "Registry_init =
     \<lparr>m_AvailableEntities = [0..<MAX_ENTITIES], m_LivingEntityCount = 0, m_ComponentArrays = []\<rparr>"
  by (simp add: Registry_init_def push_ids_eq)

lemma CreateEntity_upt:
  "k < MAX_ENTITIES \<Longrightarrow>
   CreateEntity \<lparr>m_AvailableEntities = [k..<MAX_ENTITIES], m_LivingEntityCount = k,
                 m_ComponentArrays = arrays\<rparr> =
     Inr (k, \<lparr>m_AvailableEntities = [Suc k..<MAX_ENTITIES], m_LivingEntityCount = Suc k,
               m_ComponentArrays = arrays\<rparr>)"
  using MAX_ENTITIES_le_UINT32_MAX by (simp add: CreateEntity_def upt_conv_Cons)

lemma update_appended:
  "t \<notin> fst ` set xs \<Longrightarrow> AList.update t s' (xs @ [(t, d)]) = xs @ [(t, s')]"
  by (induction xs) auto

lemma AddComponent_eval:
  "AddComponent place r t e v =
     (case map_of (m_ComponentArrays r) t of
        None \<Rightarrow>
          (case InsertData place ComponentArray_init e v of
             Inl err \<Rightarrow> Inl err
           | Inr (i, s') \<Rightarrow> Inr (i, r\<lparr>m_ComponentArrays := m_ComponentArrays r @ [(t, s')]\<rparr>))
      | Some s \<Rightarrow>
          (case InsertData place s e v of
             Inl err \<Rightarrow> Inl err
           | Inr (i, s') \<Rightarrow> Inr (i, r\<lparr>m_ComponentArrays := AList.update t s' (m_ComponentArrays r)\<rparr>)))"
proof (cases "map_of (m_ComponentArrays r) t")
  case None
  then have "t \<notin> fst ` set (m_ComponentArrays r)" by (simp add: map_of_eq_None_iff)
  then have "AList.update t s' (m_ComponentArrays r @ [(t, ComponentArray_init)]) =
        m_ComponentArrays r @ [(t, s')]" for s' :: "'a ComponentArray"
    by (rule update_appended)
  with None show ?thesis
    by (simp add: AddComponent_def GetComponentArray_def put_array_def split: sum.splits)
next
  case (Some s)
  then show ?thesis
    by (simp add: AddComponent_def GetComponentArray_def put_array_def split: sum.splits)
qed

lemma tag_view_entities_eval:
  assumes pol: "um_policy place"
  shows "tag_view_entities place = Inr ((0, 1, 2), map fst (place (place [] 0 0) 1 1))"
proof -
  have s0: "set (place [] 0 0) = {(0, 0)}"
    using um_policy_set[OF pol, of 0 "[]" 0] by simp
  then have c: "\<not> um_contains (place [] 0 0) (Suc 0)" by (simp add: um_contains_def)
  show ?thesis
    unfolding tag_view_entities_def Registry_init_eq
    by (simp add: CreateEntity_upt MAX_ENTITIES_gt AddComponent_eval TAG_ID_def InsertData_def
        ComponentArray_init_def um_assign_def c Registry_View_def GetComponentArray_def
        View_entities_def View_begin_def View_end_def BeginEntityIt_def EndEntityIt_def
        entities_loop_keys numeral_2_eq_2
        del: upt_rec_numeral)
      (simp add: um_contains_def)
qed

lemma readme_each_back:
  "readme_each place_back uuid1 tag1 point1 uuid2 tag2 point2 =
     Inr ((0, 1), [(0, [uuid2, tag1, point1]), (1, [uuid1, tag2, point2])])"
  unfolding readme_each_def Registry_init_eq
  by (simp add: CreateEntity_upt MAX_ENTITIES_gt AddComponent_eval UUID_ID_def TAG_ID_def POINT_ID_def
      InsertData_def ComponentArray_init_def um_assign_def um_contains_def place_back_def
      Registry_View_def GetComponentArray_def Each_def BeginEntityIt_def EndEntityIt_def
      ComponentArray_begin_def Each_loop_end Each_loop_step
      Iterator_deref_def Iterator_incr_def GetData_def um_index_def Let_def
      del: upt_rec_numeral)


lemma HasData_keys: "{e. HasData s e} = set (map fst (m_EntityToIndexMap s))"
  by (auto simp: HasData_def um_contains_def)

section \<open>Properties of the packed array\<close>

text \<open>
  C1 (as amended). \<^verbatim>\<open>InsertData\<close> has no case for an entity that is already present: a
  second insert for an entity of the store writes the new value to the next free slot
  \<open>m_Size\<close> like any insert and increments \<open>m_Size\<close>. Afterwards \<^verbatim>\<open>GetData\<close> returns the
  new value; every other slot, the one of the first insert among them, keeps its value
  and its index-to-entity entry.
\<close>

theorem InsertData_present_appends:
  assumes "HasData s e" and "m_Size s < MAX_ENTITIES"
  shows "\<exists>s'. InsertData place s e v = Inr (m_Size s, s') \<and>
           GetData place s' e = Inr (v, s') \<and>
           m_Size s' = m_Size s + 1 \<and>
           m_IndexToEntityMap s' (m_Size s) = Some e \<and>
           (\<forall>i. i \<noteq> m_Size s \<longrightarrow>
              m_ComponentArray s' i = m_ComponentArray s i \<and>
              m_IndexToEntityMap s' i = m_IndexToEntityMap s i)"
proof -
  let ?s' = "s\<lparr>m_ComponentArray := (m_ComponentArray s)(m_Size s := v),
            m_EntityToIndexMap := um_assign place (m_EntityToIndexMap s) e (m_Size s),
            m_IndexToEntityMap := (m_IndexToEntityMap s)(m_Size s \<mapsto> e),
            m_Size := m_Size s + 1\<rparr>"
  have ins: "InsertData place s e v = Inr (m_Size s, ?s')"
    by (rule InsertData_ok[OF assms(2)])
  have "map_of (m_EntityToIndexMap ?s') e = Some (m_Size s)"
    using assms(1) by (simp add: HasData_def um_assign_present_map_of)
  then have get: "GetData place ?s' e = Inr (v, ?s')"
    using assms(2) by (simp add: GetData_present)
  show ?thesis
    using ins get by simp
qed

theorem InsertData_present_appends_witness:
  "HasData store_7 7 \<and> m_Size store_7 < MAX_ENTITIES \<and>
   (\<exists>s'. InsertData place_front store_7 7 (UUIDComponent 20) = Inr (1, s') \<and>
      GetData place_front s' 7 = Inr (UUIDComponent 20, s') \<and>
      m_Size s' = 2 \<and> m_ComponentArray s' 0 = UUIDComponent 10)"
proof -
  have h1: "HasData store_7 7"
    by (simp add: HasData_def um_contains_def store_7_def)
  have h2: "m_Size store_7 < MAX_ENTITIES"
    by (simp add: store_7_def MAX_ENTITIES_def)
  have sz: "m_Size store_7 = 1" "m_ComponentArray store_7 0 = UUIDComponent 10"
    by (simp_all add: store_7_def)
  from InsertData_present_appends[OF h1 h2, of place_front "UUIDComponent 20"]
  obtain s' where "InsertData place_front store_7 7 (UUIDComponent 20) = Inr (m_Size store_7, s')"
    "GetData place_front s' 7 = Inr (UUIDComponent 20, s')" "m_Size s' = m_Size store_7 + 1"
    "\<forall>i. i \<noteq> m_Size store_7 \<longrightarrow> m_ComponentArray s' i = m_ComponentArray store_7 i \<and>
              m_IndexToEntityMap s' i = m_IndexToEntityMap store_7 i"
    by blast
  then show ?thesis using h1 h2 sz by auto
qed

text \<open>
  C1 as stated fails: after two inserts for entity 7 the size is 2, not the 1 it was
  after the first insert.
\<close>

theorem second_insert_grows_counterexample:
  "map_sum id m_Size
     (run_ops place_front (ComponentArray_init :: component ComponentArray)
        [Insert 7 (UUIDComponent 10)]) = Inr 1 \<and>
   map_sum id m_Size
     (run_ops place_front (ComponentArray_init :: component ComponentArray)
        [Insert 7 (UUIDComponent 10), Insert 7 (UUIDComponent 20)]) = Inr 2"
  by (simp add: InsertData_def ComponentArray_init_def um_assign_def um_contains_def
      place_front_def MAX_ENTITIES_def)

text \<open>
  C9. \<^verbatim>\<open>InsertData\<close> does not check the capacity. After any sequence of inserts and removes
  that ran on a new store, \<open>m_Size\<close> is the number of inserts minus the number of removes,
  whatever the entities were. If that number is below \<^verbatim>\<open>MAX_ENTITIES\<close> the next insert, for
  any entity, writes slot \<open>m_Size\<close> and increments \<open>m_Size\<close>; otherwise it writes outside
  the array.
\<close>

theorem InsertData_unchecked:
  assumes "run_ops place ComponentArray_init ops = Inr s"
  shows "removes ops \<le> inserts ops \<and> m_Size s = inserts ops - removes ops \<and>
         (if inserts ops - removes ops < MAX_ENTITIES
          then \<exists>s'. InsertData place s e v = Inr (m_Size s, s') \<and>
                 m_ComponentArray s' (m_Size s) = v \<and> m_Size s' = m_Size s + 1
          else InsertData place s e v = Inl OutOfBounds)"
proof -
  have "m_Size s + removes ops = inserts ops"
    using run_ops_size[OF assms] by (simp add: ComponentArray_init_def)
  then have sz: "removes ops \<le> inserts ops" "m_Size s = inserts ops - removes ops"
    by simp_all
  show ?thesis
    using sz by (simp add: InsertData_ok InsertData_fail)
qed

theorem InsertData_unchecked_witness:
  "run_ops place_front ComponentArray_init [Insert 7 (UUIDComponent 10)] = Inr store_7 \<and>
   m_Size store_7 = 1 \<and>
   (\<exists>s'. InsertData place_front store_7 7 (UUIDComponent 20) = Inr (1, s') \<and>
      m_ComponentArray s' 1 = UUIDComponent 20 \<and> m_Size s' = 2)"
proof -
  have sz: "m_Size store_7 = 1" by (simp add: store_7_def)
  show ?thesis
    using InsertData_unchecked[OF store_7_built, of 7 "UUIDComponent 20"] store_7_built sz
    by (simp add: MAX_ENTITIES_def numeral_2_eq_2)
qed

text \<open>
  C10. The component iteration \<^verbatim>\<open>begin()\<close> .. \<^verbatim>\<open>end()\<close> of a store yields the values of the
  slots \<open>m_Size - 1\<close> down to \<open>0\<close>, in that order: \<^verbatim>\<open>begin()\<close> is at index \<open>m_Size\<close>,
  \<^verbatim>\<open>end()\<close> at index 0, \<^verbatim>\<open>operator++\<close> decrements the index, and dereferencing reads the slot
  at the index minus one.
\<close>

theorem components_reverse_order:
  assumes "m_Size s \<le> MAX_ENTITIES"
  shows "ComponentArray_components s = Inr (map (m_ComponentArray s) (rev [0..<m_Size s])) \<and>
         ComponentArray_begin s = m_Size s \<and> ComponentArray_end s = 0 \<and>
         (\<forall>i. 0 < i \<longrightarrow> Iterator_incr i = i - 1) \<and>
         (\<forall>i. 0 < i \<and> i \<le> MAX_ENTITIES \<longrightarrow> Iterator_deref (m_ComponentArray s) i = Inr (m_ComponentArray s (i - 1)))"
proof -
  have "ComponentArray_components s = Inr (map (m_ComponentArray s) (rev [0..<m_Size s]))"
    using assms
    by (simp only: ComponentArray_components_def ComponentArray_begin_def ComponentArray_end_def
        components_loop_down)
  moreover have "\<forall>i. 0 < i \<longrightarrow> Iterator_incr i = i - 1"
    by (simp add: Iterator_incr_def)
  moreover have "\<forall>i. 0 < i \<and> i \<le> MAX_ENTITIES \<longrightarrow>
      Iterator_deref (m_ComponentArray s) i = Inr (m_ComponentArray s (i - 1))"
    by (auto simp: Iterator_deref_def Let_def)
  ultimately show ?thesis
    by (simp add: ComponentArray_begin_def ComponentArray_end_def)
qed

theorem components_reverse_order_witness:
  "m_Size store_789 \<le> MAX_ENTITIES \<and>
   ComponentArray_components store_789 = Inr [UUIDComponent 30, UUIDComponent 20, UUIDComponent 10]"
proof -
  have h: "m_Size store_789 \<le> MAX_ENTITIES"
    by (simp add: store_789_def MAX_ENTITIES_def)
  have "rev [0..<m_Size store_789] = [2, 1, 0]"
    by (simp add: store_789_def upt_rec)
  then show ?thesis
    using components_reverse_order[OF h] h by (simp add: store_789_def)
qed

text \<open>
  C2. Take any sequence of operations on a new store in which every insert is for an
  entity without a component and every remove for an entity with one. After each
  operation of the sequence the store is packed (\<open>store_inv\<close>: the slots in use are exactly
  \<open>[0, m_Size)\<close>, and the entity-to-index and index-to-entity maps are inverse to each
  other on them), the present entities are exactly those that should have a component,
  and the slot of each holds its value (\<open>contents\<close>).
\<close>

theorem packed_after_every_operation:
  assumes "um_policy place" and "well_targeted Map.empty ops"
  shows "\<forall>n. \<exists>s. run_ops place ComponentArray_init (take n ops) = Inr s \<and>
           store_inv s \<and>
           contents s = spec_ops Map.empty (take n ops) \<and>
           (\<forall>e. HasData s e \<longleftrightarrow> spec_ops Map.empty (take n ops) e \<noteq> None)"
proof
  fix n
  have wt: "well_targeted (contents (ComponentArray_init :: 'a ComponentArray)) (take n ops)"
    using well_targeted_take[OF assms(2)] by (simp add: contents_init)
  have val: "entities_valid (ComponentArray_init :: 'a ComponentArray)"
    by (simp add: entities_valid_def HasData_def um_contains_def ComponentArray_init_def)
  from run_ops_inv[OF assms(1) store_inv_init val wt] obtain s where
    s: "run_ops place ComponentArray_init (take n ops) = Inr s" "store_inv s"
       "contents s = spec_ops Map.empty (take n ops)"
    by (auto simp: contents_init)
  have "\<forall>e. HasData s e \<longleftrightarrow> spec_ops Map.empty (take n ops) e \<noteq> None"
    using contents_None[of s] s(3) by simp
  with s show "\<exists>s. run_ops place ComponentArray_init (take n ops) = Inr s \<and>
           store_inv s \<and>
           contents s = spec_ops Map.empty (take n ops) \<and>
           (\<forall>e. HasData s e \<longleftrightarrow> spec_ops Map.empty (take n ops) e \<noteq> None)"
    by blast
qed

theorem packed_after_every_operation_witness:
  "um_policy (place_front :: (Entity, Index) placement) \<and>
   well_targeted Map.empty [Insert 7 (UUIDComponent 10), Insert 8 (UUIDComponent 20), Remove 7] \<and>
   (\<exists>s. run_ops place_front ComponentArray_init
           [Insert 7 (UUIDComponent 10), Insert 8 (UUIDComponent 20), Remove 7] = Inr s \<and>
        store_inv s \<and> \<not> HasData s 7 \<and> HasData s 8 \<and> contents s 8 = Some (UUIDComponent 20))"
proof -
  let ?ops = "[Insert 7 (UUIDComponent 10), Insert 8 (UUIDComponent 20), Remove 7]"
  have wt: "well_targeted Map.empty ?ops"
    by (simp add: MAX_ENTITIES_def)
  from packed_after_every_operation[OF um_policy_front wt]
  have "\<exists>s. run_ops place_front ComponentArray_init (take 3 ?ops) = Inr s \<and>
           store_inv s \<and>
           contents s = spec_ops Map.empty (take 3 ?ops) \<and>
           (\<forall>e. HasData s e \<longleftrightarrow> spec_ops Map.empty (take 3 ?ops) e \<noteq> None)"
    by (rule spec)
  then obtain s where "run_ops place_front ComponentArray_init ?ops = Inr s" "store_inv s"
    "contents s = spec_ops Map.empty ?ops" "\<forall>e. HasData s e \<longleftrightarrow> spec_ops Map.empty ?ops e \<noteq> None"
    by auto
  then have "run_ops place_front ComponentArray_init ?ops = Inr s \<and>
        store_inv s \<and> \<not> HasData s 7 \<and> HasData s 8 \<and> contents s 8 = Some (UUIDComponent 20)"
    by simp
  then show ?thesis using um_policy_front wt by blast
qed

text \<open>
  C4. In a packed store, removing a present entity \<open>E\<close> whose slot \<open>i\<close> is not the last one
  copies the value of the last slot into slot \<open>i\<close>, makes the entity \<open>l\<close> of the last slot
  the entity of slot \<open>i\<close> in both maps, erases the entry of \<open>E\<close> and that of the last slot,
  and decrements \<open>m_Size\<close>. Afterwards \<open>E\<close> is not in the store, and \<^verbatim>\<open>GetData\<close> for \<open>l\<close>
  returns the same value as before, now read from slot \<open>i\<close>.
\<close>

theorem RemoveData_swaps_last:
  assumes inv: "store_inv s"
    and ei: "map_of (m_EntityToIndexMap s) E = Some i"
    and nl: "i \<noteq> m_Size s - 1"
    and gl: "m_IndexToEntityMap s (m_Size s - 1) = Some l"
  shows "\<exists>s'. RemoveData place s E = Inr s' \<and>
           m_ComponentArray s' = (m_ComponentArray s)(i := m_ComponentArray s (m_Size s - 1)) \<and>
           map_of (m_EntityToIndexMap s') = (map_of (m_EntityToIndexMap s))(l \<mapsto> i, E := None) \<and>
           m_IndexToEntityMap s' = (m_IndexToEntityMap s)(i \<mapsto> l, m_Size s - 1 := None) \<and>
           m_Size s' = m_Size s - 1 \<and>
           \<not> HasData s' E \<and> HasData s' l \<and>
           GetData place s l = Inr (m_ComponentArray s (m_Size s - 1), s) \<and>
           GetData place s' l = Inr (m_ComponentArray s (m_Size s - 1), s') \<and>
           map_of (m_EntityToIndexMap s') l = Some i"
proof -
  note D = store_inv_D[OF inv]
  from RemoveData_present[OF inv ei, of place] gl obtain s' where
    rem: "RemoveData place s E = Inr s'" and
    s': "s' = s\<lparr>m_ComponentArray := (m_ComponentArray s)(i := m_ComponentArray s (m_Size s - 1)),
                    m_EntityToIndexMap := um_erase (AList.update l i (m_EntityToIndexMap s)) E,
                    m_IndexToEntityMap := (m_IndexToEntityMap s)(i \<mapsto> l, m_Size s - 1 := None),
                    m_Size := m_Size s - 1\<rparr>"
    by auto
  from D(4)[OF gl] have fl: "map_of (m_EntityToIndexMap s) l = Some (m_Size s - 1)" by simp
  with ei nl have lE: "l \<noteq> E" by auto
  from D(5)[OF ei] D(1) have i: "i < MAX_ENTITIES" "m_Size s - 1 < MAX_ENTITIES" by auto
  have f': "map_of (m_EntityToIndexMap s') = (map_of (m_EntityToIndexMap s))(l \<mapsto> i, E := None)"
    by (simp add: s' um_erase_map_of update_conv')
  have g': "m_IndexToEntityMap s' = (m_IndexToEntityMap s)(i \<mapsto> l, m_Size s - 1 := None)"
    and n': "m_Size s' = m_Size s - 1"
    and a': "m_ComponentArray s' = (m_ComponentArray s)(i := m_ComponentArray s (m_Size s - 1))"
    by (simp_all add: s')
  have fl': "map_of (m_EntityToIndexMap s') l = Some i" using lE by (simp add: f')
  have has: "\<not> HasData s' E" "HasData s' l"
    using lE by (simp_all add: HasData_def um_contains_map_of f')
  have get: "GetData place s l = Inr (m_ComponentArray s (m_Size s - 1), s)"
    by (rule GetData_present[OF fl i(2)])
  have "GetData place s' l = Inr (m_ComponentArray s' i, s')"
    by (rule GetData_present[OF fl' i(1)])
  then have get': "GetData place s' l = Inr (m_ComponentArray s (m_Size s - 1), s')"
    by (simp add: a')
  show ?thesis
    by (intro exI[of _ s'] conjI) (fact rem a' f' g' n' has get get' fl')+
qed

theorem RemoveData_swaps_last_witness:
  "store_inv store_789 \<and> map_of (m_EntityToIndexMap store_789) 7 = Some 0 \<and>
   0 \<noteq> m_Size store_789 - 1 \<and>
   m_IndexToEntityMap store_789 (m_Size store_789 - 1) = Some 9 \<and>
   (\<exists>s'. RemoveData place_front store_789 7 = Inr s' \<and>
      m_Size s' = 2 \<and> \<not> HasData s' 7 \<and>
      map_of (m_EntityToIndexMap s') 9 = Some 0 \<and>
      GetData place_front store_789 9 = Inr (UUIDComponent 30, store_789) \<and>
      GetData place_front s' 9 = Inr (UUIDComponent 30, s'))"
proof -
  have h: "map_of (m_EntityToIndexMap store_789) 7 = Some 0" "0 \<noteq> m_Size store_789 - 1"
    "m_IndexToEntityMap store_789 (m_Size store_789 - 1) = Some 9"
    by (simp_all add: store_789_def)
  have v: "m_Size store_789 - Suc 0 = 2" "m_ComponentArray store_789 2 = UUIDComponent 30"
    by (simp_all add: store_789_def)
  from RemoveData_swaps_last[OF store_inv_789 h, of place_front]
  show ?thesis using store_inv_789 h by (auto simp: v)
qed

section \<open>Properties of the registry\<close>

text \<open>
  C6. The constructor fills the queue of available ids with \<open>0, \<dots>, MAX_ENTITIES - 1\<close> in
  this order, and \<^verbatim>\<open>CreateEntity\<close> takes the front of the queue: the first \<open>k\<close> calls, for any
  \<open>k \<le> MAX_ENTITIES\<close>, return \<open>0, \<dots>, k - 1\<close>, and in any registry whose counter and queue
  are consistent (\<open>alloc_inv\<close>) \<open>k\<close> calls return the first \<open>k\<close> ids of the queue in order.
  In such a registry the call fails with the capacity assertion exactly when the counter
  equals \<^verbatim>\<open>MAX_ENTITIES\<close>, and returns the front of the queue otherwise.
  \<^verbatim>\<open>DestroyEntity\<close> appends the id to the back of the queue, whatever the queue holds, and
  decrements the counter: the ids that were available come out first, in their order,
  and the destroyed id after them. So in a full registry, after one entity is destroyed,
  \<^verbatim>\<open>CreateEntity\<close> succeeds and returns that id.
\<close>

theorem allocator_fifo:
  "m_AvailableEntities (Registry_init :: 'a::default Registry) = [0..<MAX_ENTITIES] \<and>
   m_LivingEntityCount (Registry_init :: 'a Registry) = 0 \<and>
   (\<forall>k\<le>MAX_ENTITIES. \<exists>r.
       create_n k (Registry_init :: 'a Registry) = Inr ([0..<k], r) \<and>
       m_LivingEntityCount r = k \<and> alloc_inv r) \<and>
   (\<forall>r :: 'a Registry. alloc_inv r \<longrightarrow>
       (CreateEntity r = Inl CapacityExceeded \<longleftrightarrow> m_LivingEntityCount r = MAX_ENTITIES) \<and>
       (m_LivingEntityCount r \<noteq> MAX_ENTITIES \<longrightarrow>
          (\<exists>r'. CreateEntity r = Inr (hd (m_AvailableEntities r), r') \<and>
                m_AvailableEntities r' = tl (m_AvailableEntities r)))) \<and>
   (\<forall>(r :: 'a Registry) k. alloc_inv r \<and> k \<le> length (m_AvailableEntities r) \<longrightarrow>
       (\<exists>r'. create_n k r = Inr (take k (m_AvailableEntities r), r') \<and>
             m_AvailableEntities r' = drop k (m_AvailableEntities r))) \<and>
   (\<forall>(r :: 'a Registry) e. arrays_inv r \<and> e < MAX_ENTITIES \<longrightarrow>
       (\<exists>r1. DestroyEntity place r e = Inr r1 \<and>
          m_AvailableEntities r1 = m_AvailableEntities r @ [e] \<and>
          m_LivingEntityCount r1 =
            (if m_LivingEntityCount r = 0 then UINT32_MAX else m_LivingEntityCount r - 1))) \<and>
   (\<forall>(r :: 'a Registry) e.
       alloc_inv r \<and> arrays_inv r \<and> e < MAX_ENTITIES \<and> e \<notin> set (m_AvailableEntities r) \<longrightarrow>
       (\<exists>r1 r2. DestroyEntity place r e = Inr r1 \<and>
          create_n (length (m_AvailableEntities r) + 1) r1 =
            Inr (m_AvailableEntities r @ [e], r2))) \<and>
   (\<forall>(r :: 'a Registry) e.
       alloc_inv r \<and> arrays_inv r \<and> m_LivingEntityCount r = MAX_ENTITIES \<and> e < MAX_ENTITIES \<longrightarrow>
       CreateEntity r = Inl CapacityExceeded \<and>
       (\<exists>r1 r2. DestroyEntity place r e = Inr r1 \<and>
          m_AvailableEntities r1 = m_AvailableEntities r @ [e] \<and>
          CreateEntity r1 = Inr (e, r2)))"
proof (intro conjI allI impI)
  show "m_AvailableEntities (Registry_init :: 'a Registry) = [0..<MAX_ENTITIES]"
    by (rule Registry_init_queue)
  show "m_LivingEntityCount (Registry_init :: 'a Registry) = 0"
    by (simp add: Registry_init_def)
next
  fix k assume k: "k \<le> MAX_ENTITIES"
  let ?r = "(Registry_init :: 'a Registry)\<lparr>m_AvailableEntities := [k..<MAX_ENTITIES], m_LivingEntityCount := k\<rparr>"
  have "alloc_inv ?r" using k by (auto simp: alloc_inv_def)
  with create_n_init[OF k]
  show "\<exists>r. create_n k (Registry_init :: 'a Registry) = Inr ([0..<k], r) \<and>
       m_LivingEntityCount r = k \<and> alloc_inv r"
    by (intro exI[of _ ?r]) simp
next
  fix r :: "'a Registry" assume a: "alloc_inv r"
  from CreateEntity_alloc[OF a]
  show "CreateEntity r = Inl CapacityExceeded \<longleftrightarrow> m_LivingEntityCount r = MAX_ENTITIES"
    by blast
  assume "m_LivingEntityCount r \<noteq> MAX_ENTITIES"
  with CreateEntity_alloc[OF a]
  show "\<exists>r'. CreateEntity r = Inr (hd (m_AvailableEntities r), r') \<and>
                m_AvailableEntities r' = tl (m_AvailableEntities r)"
    by blast
next
  fix r :: "'a Registry" and k
  assume "alloc_inv r \<and> k \<le> length (m_AvailableEntities r)"
  with create_n_take[of r k]
  show "\<exists>r'. create_n k r = Inr (take k (m_AvailableEntities r), r') \<and>
             m_AvailableEntities r' = drop k (m_AvailableEntities r)"
    by blast
next
  fix r :: "'a Registry" and e
  assume "arrays_inv r \<and> e < MAX_ENTITIES"
  with DestroyEntity_inv[of r e place]
  show "\<exists>r1. DestroyEntity place r e = Inr r1 \<and>
          m_AvailableEntities r1 = m_AvailableEntities r @ [e] \<and>
          m_LivingEntityCount r1 =
            (if m_LivingEntityCount r = 0 then UINT32_MAX else m_LivingEntityCount r - 1)"
    by blast
next
  fix r :: "'a Registry" and e
  assume "alloc_inv r \<and> arrays_inv r \<and> e < MAX_ENTITIES \<and> e \<notin> set (m_AvailableEntities r)"
  with destroy_then_fifo[of r e place]
  show "\<exists>r1 r2. DestroyEntity place r e = Inr r1 \<and>
          create_n (length (m_AvailableEntities r) + 1) r1 =
            Inr (m_AvailableEntities r @ [e], r2)"
    by blast
next
  fix r :: "'a Registry" and e
  assume h: "alloc_inv r \<and> arrays_inv r \<and> m_LivingEntityCount r = MAX_ENTITIES \<and> e < MAX_ENTITIES"
  from h full_then_recycle[of r e place]
  show "CreateEntity r = Inl CapacityExceeded" by blast
  from h full_then_recycle[of r e place]
  show "\<exists>r1 r2. DestroyEntity place r e = Inr r1 \<and>
          m_AvailableEntities r1 = m_AvailableEntities r @ [e] \<and>
          CreateEntity r1 = Inr (e, r2)"
    by blast
qed

theorem allocator_fifo_witness:
  "(2::nat) \<le> MAX_ENTITIES \<and>
   (\<exists>r. create_n 2 (Registry_init :: component Registry) = Inr ([0, 1], r) \<and>
        m_LivingEntityCount r = 2) \<and>
   alloc_inv registry_two_free \<and> arrays_inv registry_two_free \<and>
   (5::nat) < MAX_ENTITIES \<and> 5 \<notin> set (m_AvailableEntities registry_two_free) \<and>
   (\<exists>r'. CreateEntity registry_two_free = Inr (3, r') \<and> m_AvailableEntities r' = [4]) \<and>
   (\<exists>r1 r2. DestroyEntity place_front registry_two_free 5 = Inr r1 \<and>
      m_AvailableEntities r1 = [3, 4, 5] \<and>
      create_n 3 r1 = Inr ([3, 4, 5], r2)) \<and>
   alloc_inv registry_full \<and> arrays_inv registry_full \<and>
   m_LivingEntityCount registry_full = MAX_ENTITIES \<and>
   CreateEntity registry_full = Inl CapacityExceeded \<and>
   (\<exists>r1 r2. DestroyEntity place_front registry_full 5 = Inr r1 \<and>
      m_AvailableEntities r1 = [5] \<and> CreateEntity r1 = Inr (5, r2))"
proof -
  note t = allocator_fifo[where 'a = component and place = place_front]
  have k: "(2::nat) \<le> MAX_ENTITIES" "(5::nat) < MAX_ENTITIES" by (simp_all add: MAX_ENTITIES_def)
  have f: "alloc_inv registry_full" "arrays_inv registry_full"
    "m_LivingEntityCount registry_full = MAX_ENTITIES" "m_AvailableEntities registry_full = []"
    by (rule alloc_inv_full) (simp_all add: arrays_inv_def registry_full_def)
  have g: "alloc_inv registry_two_free" "arrays_inv registry_two_free"
    "m_AvailableEntities registry_two_free = [3, 4]"
    "m_LivingEntityCount registry_two_free \<noteq> MAX_ENTITIES"
    by (rule alloc_inv_two_free)
       (simp_all add: arrays_inv_def registry_two_free_def MAX_ENTITIES_def)
  have u: "[0..<2] = [0, Suc 0]" by (simp add: upt_rec)
  from t k(1) have "\<exists>r. create_n 2 (Registry_init :: component Registry) = Inr ([0..<2], r) \<and>
       m_LivingEntityCount r = 2 \<and> alloc_inv r"
    by blast
  then have 1: "\<exists>r. create_n 2 (Registry_init :: component Registry) = Inr ([0, 1], r) \<and>
        m_LivingEntityCount r = 2"
    by (auto simp: u)
  from t f k(2) have 2: "CreateEntity registry_full = Inl CapacityExceeded \<and>
       (\<exists>r1 r2. DestroyEntity place_front registry_full 5 = Inr r1 \<and>
          m_AvailableEntities r1 = m_AvailableEntities registry_full @ [5] \<and>
          CreateEntity r1 = Inr (5, r2))"
    by blast
  from t g(1,4) have "\<exists>r'. CreateEntity registry_two_free =
        Inr (hd (m_AvailableEntities registry_two_free), r') \<and>
      m_AvailableEntities r' = tl (m_AvailableEntities registry_two_free)"
    by blast
  then have 3: "\<exists>r'. CreateEntity registry_two_free = Inr (3, r') \<and> m_AvailableEntities r' = [4]"
    by (simp add: g(3))
  have l: "5 \<notin> set (m_AvailableEntities registry_two_free)" by (simp add: g(3))
  from t g(2) k(2) have "\<exists>r1. DestroyEntity place_front registry_two_free 5 = Inr r1 \<and>
      m_AvailableEntities r1 = m_AvailableEntities registry_two_free @ [5]"
    by blast
  moreover from t g(1,2) k(2) l have "\<exists>r1 r2. DestroyEntity place_front registry_two_free 5 = Inr r1 \<and>
      create_n (length (m_AvailableEntities registry_two_free) + 1) r1 =
        Inr (m_AvailableEntities registry_two_free @ [5], r2)"
    by blast
  ultimately have 4: "\<exists>r1 r2. DestroyEntity place_front registry_two_free 5 = Inr r1 \<and>
      m_AvailableEntities r1 = [3, 4, 5] \<and> create_n 3 r1 = Inr ([3, 4, 5], r2)"
    by (auto simp: g(3) numeral_3_eq_3)
  from 1 2 3 4 k f g l show ?thesis by simp
qed

text \<open>
  C8. In a registry whose stores are packed, \<^verbatim>\<open>DestroyEntity\<close> for an id in range calls
  \<^verbatim>\<open>OnEntityDestroyed\<close> on every store held and then appends the id to the queue and
  decrements the counter. Afterwards \<^verbatim>\<open>HasComponent\<close> is false for the entity and every
  component type, and it still is after any number of \<^verbatim>\<open>CreateEntity\<close> calls, so for an
  entity created with that id.
\<close>

theorem DestroyEntity_clears_components:
  fixes r :: "'a::default Registry"
  assumes "arrays_inv r" and "e < MAX_ENTITIES"
  shows "\<exists>r'. DestroyEntity place r e = Inr r' \<and>
           list_all2 (\<lambda>(t, s) (t', s'). t' = t \<and> OnEntityDestroyed place s e = Inr s' \<and> \<not> HasData s' e)
             (m_ComponentArrays r) (m_ComponentArrays r') \<and>
           m_AvailableEntities r' = m_AvailableEntities r @ [e] \<and>
           m_LivingEntityCount r' =
             (if m_LivingEntityCount r = 0 then UINT32_MAX else m_LivingEntityCount r - 1) \<and>
           (\<forall>t. \<not> fst (HasComponent r' t e)) \<and>
           (\<forall>k ids r''. create_n k r' = Inr (ids, r'') \<longrightarrow> (\<forall>t. \<not> fst (HasComponent r'' t e)))"
proof -
  from DestroyEntity_inv[OF assms, of place] obtain r' where
    d: "DestroyEntity place r e = Inr r'"
       "m_AvailableEntities r' = m_AvailableEntities r @ [e]"
       "m_LivingEntityCount r' =
             (if m_LivingEntityCount r = 0 then UINT32_MAX else m_LivingEntityCount r - 1)"
       "list_all2 (\<lambda>(t, s) (t', s'). t' = t \<and> OnEntityDestroyed place s e = Inr s' \<and> \<not> HasData s' e)
             (m_ComponentArrays r) (m_ComponentArrays r')"
       "\<forall>t. \<not> fst (HasComponent r' t e)"
    by blast
  have c: "\<forall>k ids r''. create_n k r' = Inr (ids, r'') \<longrightarrow> (\<forall>t. \<not> fst (HasComponent r'' t e))"
  proof (intro allI impI)
    fix k ids r'' t
    assume "create_n k r' = Inr (ids, r'')"
    from create_n_arrays[OF this] have "fst (HasComponent r'' t e) = fst (HasComponent r' t e)"
      by (rule HasComponent_arrays)
    with d(5) show "\<not> fst (HasComponent r'' t e)" by simp
  qed
  show ?thesis
    by (intro exI[of _ r'] conjI) (fact d c)+
qed

theorem DestroyEntity_clears_components_witness:
  "arrays_inv registry_two_stores \<and> (7::nat) < MAX_ENTITIES \<and>
   fst (HasComponent registry_two_stores 0 7) \<and> fst (HasComponent registry_two_stores 1 7) \<and>
   (\<exists>r'. DestroyEntity place_front registry_two_stores 7 = Inr r' \<and>
      \<not> fst (HasComponent r' 0 7) \<and> \<not> fst (HasComponent r' 1 7) \<and>
      (\<exists>r''. create_n 1 r' = Inr ([7], r'') \<and>
         \<not> fst (HasComponent r'' 0 7) \<and> \<not> fst (HasComponent r'' 1 7)))"
proof -
  have a: "arrays_inv registry_two_stores"
    by (simp add: arrays_inv_def registry_two_stores_def store_inv_7 store_inv_789)
  have e: "(7::nat) < MAX_ENTITIES" by (simp add: MAX_ENTITIES_def)
  have h: "fst (HasComponent registry_two_stores 0 7)" "fst (HasComponent registry_two_stores 1 7)"
    by (simp_all add: HasComponent_lookup registry_two_stores_def HasData_def um_contains_def
        store_7_def store_789_def)
  from DestroyEntity_clears_components[OF a e, of place_front] obtain r' where
    d: "DestroyEntity place_front registry_two_stores 7 = Inr r'"
       "m_AvailableEntities r' = m_AvailableEntities registry_two_stores @ [7]"
       "m_LivingEntityCount r' =
          (if m_LivingEntityCount registry_two_stores = 0 then UINT32_MAX
           else m_LivingEntityCount registry_two_stores - 1)"
       "\<forall>t. \<not> fst (HasComponent r' t 7)"
       "\<forall>k ids r''. create_n k r' = Inr (ids, r'') \<longrightarrow> (\<forall>t. \<not> fst (HasComponent r'' t 7))"
    by blast
  have q: "m_AvailableEntities r' = 7 # []" using d(2) by (simp add: registry_two_stores_def)
  have c: "m_LivingEntityCount r' < MAX_ENTITIES"
    using d(3) by (simp add: registry_two_stores_def MAX_ENTITIES_def)
  from CreateEntity_front[OF c q] obtain r'' where n: "create_n 1 r' = Inr ([7], r'')"
    by simp
  from d(5) n have "\<forall>t. \<not> fst (HasComponent r'' t 7)" by blast
  with a e h d(1,4) n show ?thesis by blast
qed

section \<open>The lock-step of Each\<close>

lemma rev_upt_last: "a < n \<Longrightarrow> rev [a..<n] = (n - 1) # rev [a..<n - 1]"
  by (cases n) simp_all

lemma Each_loop_single:
  "length it \<le> n \<Longrightarrow> n \<le> MAX_ENTITIES \<Longrightarrow>
   Each_loop place arr it [] n [] =
     Inr (map (\<lambda>(node, k). (fst node, [arr k])) (zip it (rev [n - length it..<n])), [])"
proof (induction it arbitrary: n)
  case Nil
  then show ?case by (simp add: Each_loop_end)
next
  case (Cons node it)
  from Cons.prems have n: "0 < n" "length it \<le> n - 1" "n - 1 \<le> MAX_ENTITIES" by simp_all
  have d: "Iterator_deref arr n = Inr (arr (n - 1))"
    using n(1) Cons.prems(2) by (simp add: Iterator_deref_def Let_def)
  have i: "Iterator_incr n = n - 1" using n(1) by (simp add: Iterator_incr_def)
  have r: "rev [n - length (node # it)..<n] = (n - 1) # rev [n - 1 - length it..<n - 1]"
    using rev_upt_last[of "n - length (node # it)" n] n(1) by simp
  show ?case
    by (simp only: Each_loop_step Let_def d i GetAsTuple.simps sum.case prod.case
        Cons.IH[OF n(2,3)] r zip_Cons_Cons list.map fst_conv)
qed

lemma store_inv_length:
  assumes "store_inv s"
  shows "length (m_EntityToIndexMap s) = m_Size s"
proof -
  note D = store_inv_D[OF assms]
  let ?L = "m_EntityToIndexMap s"
  have mem: "map_of ?L e = Some i" if "(e, i) \<in> set ?L" for e i
    using that D(2) by simp
  have inj: "inj_on snd (set ?L)"
  proof (rule inj_onI)
    fix p q assume p: "p \<in> set ?L" and q: "q \<in> set ?L" and eq: "snd p = snd q"
    from p mem[of "fst p" "snd p"] have "m_IndexToEntityMap s (snd p) = Some (fst p)"
      using D(5) by simp
    moreover from q mem[of "fst q" "snd q"] have "m_IndexToEntityMap s (snd q) = Some (fst q)"
      using D(5) by simp
    ultimately have "fst p = fst q" using eq by simp
    with eq show "p = q" by (simp add: prod_eq_iff)
  qed
  have img: "snd ` set ?L = {0..<m_Size s}"
  proof (rule set_eqI)
    fix i
    show "i \<in> snd ` set ?L \<longleftrightarrow> i \<in> {0..<m_Size s}"
    proof
      assume "i \<in> snd ` set ?L"
      then obtain e where "(e, i) \<in> set ?L" by force
      from D(5)[OF mem[OF this]] show "i \<in> {0..<m_Size s}" by simp
    next
      assume "i \<in> {0..<m_Size s}"
      then have "i < m_Size s" by simp
      from D(3)[OF this] obtain e where "m_IndexToEntityMap s i = Some e" by blast
      from D(4)[OF this] have "map_of ?L e = Some i" by simp
      then have "(e, i) \<in> set ?L" by (rule map_of_SomeD)
      then show "i \<in> snd ` set ?L" by force
    qed
  qed
  have "distinct ?L" using D(2) by (rule distinct_map[THEN iffD1, THEN conjunct1])
  then have "length ?L = card (set ?L)" by (simp add: distinct_card)
  also have "\<dots> = card (snd ` set ?L)" using inj by (simp add: card_image)
  also have "\<dots> = m_Size s" by (simp add: img)
  finally show ?thesis .
qed

text \<open>\<^verbatim>\<open>Each\<close> over a single packed store: the \<open>k\<close>-th call gets slot \<open>m_Size - 1 - k\<close>.\<close>

lemma Each_single_store:
  assumes "store_inv s"
  shows "Each place (View s []) =
           Inr (map (\<lambda>(node, k). (fst node, [m_ComponentArray s k]))
                  (zip (m_EntityToIndexMap s) (rev [0..<m_Size s])), [])"
  using Each_loop_single[of "m_EntityToIndexMap s" "m_Size s" place "m_ComponentArray s"]
    store_inv_length[OF assms] store_inv_D(1)[OF assms]
  by (simp add: Each_def BeginEntityIt_def EndEntityIt_def ComponentArray_begin_def)

lemma three_orders:
  assumes m: "mset L = {#a, b, c#}" and d: "distinct [a, b, c]"
  shows "L = [a, b, c] \<or> L = [a, c, b] \<or> L = [b, a, c] \<or> L = [b, c, a] \<or>
         L = [c, a, b] \<or> L = [c, b, a]"
proof -
  have m': "mset L = mset [a, b, c]" using m by simp
  from mset_eq_length[OF m'] obtain x y z where L: "L = [x, y, z]"
    by (auto simp: length_Suc_conv)
  from mset_eq_setD[OF m'] have s: "{x, y, z} = {a, b, c}" by (simp add: L)
  from d m' have dl: "distinct [x, y, z]"
    using mset_eq_imp_distinct_iff[OF m'] by (simp add: L)
  from s have "x \<in> {a, b, c}" "y \<in> {a, b, c}" "z \<in> {a, b, c}" by blast+
  with dl show ?thesis unfolding L by auto
qed

lemma three_inserts:
  assumes pol: "um_policy place"
  shows "run_ops place ComponentArray_init [Insert 7 a, Insert 8 b, Insert 9 c] =
           Inr \<lparr>m_ComponentArray = (\<lambda>_. default)(0 := a, 1 := b, 2 := c),
                m_EntityToIndexMap = place (place (place [] 7 0) 8 1) 9 2,
                m_IndexToEntityMap = [0 \<mapsto> 7, 1 \<mapsto> 8, 2 \<mapsto> 9],
                m_Size = 3\<rparr> \<and>
         mset (place (place (place [] 7 0) 8 1) 9 2) = {#(9, 2), (8, 1), (7, 0)#}"
proof -
  let ?A = "place [] 7 0" and ?B = "place (place [] 7 0) 8 1"
  have mA: "mset ?A = {#(7, 0)#}"
    using pol[unfolded um_policy_def, rule_format, of 7 "[]" 0] by simp
  then have sA: "set ?A = {(7, 0)}" by (metis set_mset_mset set_mset_single)
  then have cA: "8 \<notin> fst ` set ?A" by simp
  have mB: "mset ?B = {#(8, 1), (7, 0)#}"
    using pol[unfolded um_policy_def, rule_format, OF cA, of 1] mA by simp
  then have sB: "set ?B = {(8, 1), (7, 0)}"
    by (metis set_mset_mset set_mset_add_mset_insert set_mset_single)
  then have cB: "9 \<notin> fst ` set ?B" by simp
  have mC: "mset (place ?B 9 2) = {#(9, 2), (8, 1), (7, 0)#}"
    using pol[unfolded um_policy_def, rule_format, OF cB, of 2] mB by simp
  have c: "\<not> um_contains ?A 8" "\<not> um_contains ?B 9"
    using cA cB by (simp_all add: um_contains_def)
  have lt: "0 < MAX_ENTITIES" "Suc 0 < MAX_ENTITIES" "2 < MAX_ENTITIES"
    by (simp_all add: MAX_ENTITIES_def)
  have "run_ops place ComponentArray_init [Insert 7 a, Insert 8 b, Insert 9 c] =
           Inr \<lparr>m_ComponentArray = (\<lambda>_. default)(0 := a, 1 := b, 2 := c),
                m_EntityToIndexMap = place (place (place [] 7 0) 8 1) 9 2,
                m_IndexToEntityMap = [0 \<mapsto> 7, 1 \<mapsto> 8, 2 \<mapsto> 9],
                m_Size = 3\<rparr>"
    using c lt
    by (simp add: InsertData_def ComponentArray_init_def um_assign_def numeral_2_eq_2 numeral_3_eq_3)
       (simp add: um_contains_def)
  with mC show ?thesis by simp
qed

lemma lockstep_broken_for_order:
  fixes a b c :: 'a and d :: 'a
  assumes L: "L = [(7, 0), (8, 1), (9, 2)] \<or> L = [(7, 0), (9, 2), (8, 1)] \<or>
              L = [(8, 1), (7, 0), (9, 2)] \<or> L = [(8, 1), (9, 2), (7, 0)] \<or>
              L = [(9, 2), (7, 0), (8, 1)] \<or> L = [(9, 2), (8, 1), (7, 0)]"
    and ne: "a \<noteq> b" "a \<noteq> c" "b \<noteq> c"
    and s3: "s3 = \<lparr>m_ComponentArray = (\<lambda>_. d)(0 := a, 1 := b, 2 := c),
                m_EntityToIndexMap = L,
                m_IndexToEntityMap = [0 \<mapsto> 7, 1 \<mapsto> 8, 2 \<mapsto> 9],
                m_Size = 3\<rparr>"
  shows "\<exists>s2 calls3 calls2.
           RemoveData place s3 7 = Inr s2 \<and>
           Each place (View s3 []) = Inr (calls3, []) \<and>
           Each place (View s2 []) = Inr (calls2, []) \<and>
           ((\<exists>call\<in>set calls3. contents s3 (fst call) \<noteq> Some (hd (snd call))) \<or>
            (\<exists>call\<in>set calls2. contents s2 (fst call) \<noteq> Some (hd (snd call))))"
proof -
  have lt: "0 < MAX_ENTITIES" "Suc 0 < MAX_ENTITIES" "2 < MAX_ENTITIES" "Suc (Suc 0) < MAX_ENTITIES"
    by (simp_all add: MAX_ENTITIES_def)
  note defs = s3 RemoveData_def um_index_def um_assign_def um_contains_def um_erase_def
    Each_def BeginEntityIt_def EndEntityIt_def ComponentArray_begin_def Each_loop_end Each_loop_step
    Iterator_deref_def Iterator_incr_def contents_def Let_def
  from L show ?thesis
  proof (elim disjE)
    assume "L = [(7, 0), (8, 1), (9, 2)]"
    with ne lt show ?thesis by (simp add: defs)
  next
    assume "L = [(7, 0), (9, 2), (8, 1)]"
    with ne lt show ?thesis by (simp add: defs)
  next
    assume "L = [(8, 1), (7, 0), (9, 2)]"
    with ne lt show ?thesis by (simp add: defs)
  next
    assume "L = [(8, 1), (9, 2), (7, 0)]"
    with ne lt show ?thesis by (simp add: defs)
  next
    assume "L = [(9, 2), (7, 0), (8, 1)]"
    with ne lt show ?thesis by (simp add: defs)
  next
    assume "L = [(9, 2), (8, 1), (7, 0)]"
    with ne lt show ?thesis by (simp add: defs)
  qed
qed

text \<open>
  The lock-step of \<^verbatim>\<open>Each\<close> does not survive a removal, on any conforming hash table:
  after three inserts with different values and the removal of the entity inserted
  first, or already before the removal, some call of the callback gets a value that is
  not the one stored for its entity.
\<close>

lemma Each_lockstep_broken_by_remove:
  assumes pol: "um_policy place" and ne: "a \<noteq> b" "a \<noteq> c" "b \<noteq> c"
  shows "\<exists>s3 s2 calls3 calls2.
           run_ops place ComponentArray_init [Insert 7 a, Insert 8 b, Insert 9 c] = Inr s3 \<and>
           RemoveData place s3 7 = Inr s2 \<and>
           Each place (View s3 []) = Inr (calls3, []) \<and>
           Each place (View s2 []) = Inr (calls2, []) \<and>
           ((\<exists>call\<in>set calls3. contents s3 (fst call) \<noteq> Some (hd (snd call))) \<or>
            (\<exists>call\<in>set calls2. contents s2 (fst call) \<noteq> Some (hd (snd call))))"
proof -
  let ?L = "place (place (place [] 7 0) 8 1) 9 2"
  let ?s3 = "\<lparr>m_ComponentArray = (\<lambda>_. default)(0 := a, 1 := b, 2 := c),
                m_EntityToIndexMap = ?L,
                m_IndexToEntityMap = [0 \<mapsto> 7, 1 \<mapsto> 8, 2 \<mapsto> 9],
                m_Size = 3\<rparr>"
  from three_inserts[OF pol, of a b c] have
    run: "run_ops place ComponentArray_init [Insert 7 a, Insert 8 b, Insert 9 c] = Inr ?s3"
    and m: "mset ?L = {#(9, 2), (8, 1), (7, 0)#}"
    by simp_all
  have dd: "distinct [(9, 2), (8, 1), (7, 0 :: nat) :: nat \<times> nat]" by simp
  from three_orders[OF m dd] have L: "?L = [(7, 0), (8, 1), (9, 2)] \<or> ?L = [(7, 0), (9, 2), (8, 1)] \<or>
              ?L = [(8, 1), (7, 0), (9, 2)] \<or> ?L = [(8, 1), (9, 2), (7, 0)] \<or>
              ?L = [(9, 2), (7, 0), (8, 1)] \<or> ?L = [(9, 2), (8, 1), (7, 0)]"
    by blast
  from lockstep_broken_for_order[OF L ne refl, where place = place] run
  show ?thesis by blast
qed

section \<open>Properties of views\<close>

text \<open>
  C7. \<^verbatim>\<open>View::Contains\<close> is true for an entity exactly if every store of the view holds it.
  For the view the registry makes for component types \<open>A\<close> and \<open>B\<close> (or any list of types)
  that is: exactly if \<^verbatim>\<open>HasComponent\<close> is true for the entity and each of the types, asked
  of the registry before or after the view was made.
\<close>

theorem View_Contains_all_stores:
  fixes r :: "'a::default Registry"
  shows "(View_Contains (View s ss) e \<longleftrightarrow> HasData s e \<and> (\<forall>x\<in>set ss. HasData x e)) \<and>
   (View_Contains (fst (Registry_View r A [B])) e \<longleftrightarrow>
      fst (HasComponent r A e) \<and> fst (HasComponent r B e)) \<and>
   (View_Contains (fst (Registry_View r t ts)) e \<longleftrightarrow>
      (\<forall>t'\<in>set (t # ts). fst (HasComponent r t' e))) \<and>
   (View_Contains (fst (Registry_View r t ts)) e \<longleftrightarrow>
      (\<forall>t'\<in>set (t # ts). fst (HasComponent (snd (Registry_View r t ts)) t' e)))"
proof -
  have 1: "View_Contains (View s ss) e \<longleftrightarrow> HasData s e \<and> (\<forall>x\<in>set ss. HasData x e)"
    by (simp add: View_Contains_def m_Arrays_def list_all_iff)
  have 3: "View_Contains (fst (Registry_View r t ts)) e \<longleftrightarrow>
      (\<forall>t'\<in>set (t # ts). fst (HasComponent r t' e))" for r :: "'a::default Registry" and t ts
    by (simp add: View_Contains_def Registry_View_arrays HasComponent_fst list_all_iff)
  have 4: "View_Contains (fst (Registry_View r t ts)) e \<longleftrightarrow>
      (\<forall>t'\<in>set (t # ts). fst (HasComponent (snd (Registry_View r t ts)) t' e))"
    by (simp add: View_Contains_def Registry_View_arrays HasComponent_fst list_all_iff
        Registry_View_lookup)
  have 2: "View_Contains (fst (Registry_View r A [B])) e \<longleftrightarrow>
      fst (HasComponent r A e) \<and> fst (HasComponent r B e)"
    using 3[of r A "[B]"] by simp
  from 1 2 3 4 show ?thesis by blast
qed

theorem View_Contains_all_stores_witness:
  "View_Contains (fst (Registry_View registry_two_stores 0 [1])) 7 \<and>
   fst (HasComponent registry_two_stores 0 7) \<and> fst (HasComponent registry_two_stores 1 7) \<and>
   \<not> View_Contains (fst (Registry_View registry_two_stores 0 [1])) 8 \<and>
   \<not> fst (HasComponent registry_two_stores 0 8) \<and> fst (HasComponent registry_two_stores 1 8)"
proof -
  have h: "fst (HasComponent registry_two_stores 0 7)" "fst (HasComponent registry_two_stores 1 7)"
    "\<not> fst (HasComponent registry_two_stores 0 8)" "fst (HasComponent registry_two_stores 1 8)"
    by (simp_all add: HasComponent_def GetComponentArray_def registry_two_stores_def HasData_def
        um_contains_def store_7_def store_789_def)
  from View_Contains_all_stores[of "store_7" "[store_789]" 7 registry_two_stores 0 1 0 "[1]"]
  have "View_Contains (fst (Registry_View registry_two_stores 0 [1])) 7 \<longleftrightarrow>
      fst (HasComponent registry_two_stores 0 7) \<and> fst (HasComponent registry_two_stores 1 7)"
    by blast
  moreover
  from View_Contains_all_stores[of "store_7" "[store_789]" 8 registry_two_stores 0 1 0 "[1]"]
  have "View_Contains (fst (Registry_View registry_two_stores 0 [1])) 8 \<longleftrightarrow>
      fst (HasComponent registry_two_stores 0 8) \<and> fst (HasComponent registry_two_stores 1 8)"
    by blast
  ultimately show ?thesis using h by simp
qed

text \<open>
  C5. The range-based loop over a view runs from \<^verbatim>\<open>BeginEntityIt\<close> to \<^verbatim>\<open>EndEntityIt\<close> of the
  first store: it is the loop over that store's entities, ends normally, and visits the
  keys of that store's entity-to-index map in the map's order. These are exactly the
  entities the first store holds, each once in a packed store, whatever the other stores
  of the view hold. In the scenario with three entities of which the first two get a
  tag, on any conforming hash table, the loop over the view of the tags visits entities
  0 and 1, each once, and not 2.
\<close>

theorem View_entities_first_store:
  "View_begin (View s others) = BeginEntityIt s \<and>
   View_end (View s others) = EndEntityIt s \<and>
   View_entities (View s others) = entities_loop (BeginEntityIt s) (EndEntityIt s) \<and>
   View_entities (View s others) = Inr (map fst (m_EntityToIndexMap s)) \<and>
   (\<forall>entities. View_entities (View s others) = Inr entities \<longrightarrow>
      set entities = {e. HasData s e} \<and> (store_inv s \<longrightarrow> distinct entities)) \<and>
   (um_policy place \<longrightarrow>
      (\<exists>entities. tag_view_entities place = Inr ((0, 1, 2), entities) \<and>
         set entities = {0, 1} \<and> distinct entities \<and> 2 \<notin> set entities))"
proof -
  have v: "View_entities (View s others) = Inr (map fst (m_EntityToIndexMap s))"
    by (simp add: View_entities_def View_begin_def View_end_def BeginEntityIt_def EndEntityIt_def
        entities_loop_keys)
  have d: "distinct (map fst (m_EntityToIndexMap s))" if "store_inv s"
    using store_inv_D(2)[OF that] .
  have t: "\<exists>entities. tag_view_entities place = Inr ((0, 1, 2), entities) \<and>
         set entities = {0, 1} \<and> distinct entities \<and> 2 \<notin> set entities" if pol: "um_policy place"
  proof -
    let ?K = "place [] 0 0" and ?L = "place (place [] 0 0) 1 1"
    have s0: "set ?K = {(0, 0)}" using um_policy_set[OF pol, of 0 "[]" 0] by simp
    then have k0: "1 \<notin> fst ` set ?K" by simp
    have d0: "distinct (map fst ?K)" using um_policy_distinct[OF pol, of 0 "[]" 0] by simp
    have "set ?L = insert (1, 1) (set ?K)" by (rule um_policy_set[OF pol k0])
    then have "set ?L = {(1, 1), (0, 0)}" by (simp only: s0)
    then have "set (map fst ?L) = {0, 1}" by auto
    moreover have "distinct (map fst ?L)" by (rule um_policy_distinct[OF pol k0 d0])
    ultimately show ?thesis using tag_view_entities_eval[OF pol] by simp
  qed
  show ?thesis
    using v d t
    by (simp add: View_begin_def View_end_def View_entities_def HasData_keys)
qed

theorem View_entities_first_store_witness:
  "store_inv store_789 \<and>
   View_entities (View store_789 [store_7]) = Inr [9, 8, 7] \<and>
   \<not> HasData store_7 9 \<and> \<not> HasData store_7 8 \<and>
   um_policy (place_front :: (Entity, Index) placement) \<and>
   tag_view_entities place_front = Inr ((0, 1, 2), [1, 0])"
proof -
  note t = View_entities_first_store[of store_789 "[store_7]" place_front]
  from t have "View_entities (View store_789 [store_7]) = Inr (map fst (m_EntityToIndexMap store_789))"
    by blast
  then have v: "View_entities (View store_789 [store_7]) = Inr [9, 8, 7]"
    by (simp add: store_789_def)
  have h: "\<not> HasData store_7 9" "\<not> HasData store_7 8"
    by (simp_all add: HasData_def um_contains_def store_7_def)
  from t um_policy_front obtain entities where
    e: "tag_view_entities place_front = Inr ((0, 1, 2), entities)" by blast
  have "tag_view_entities place_front = Inr ((0, 1, 2), [1, 0])"
    using tag_view_entities_eval[OF um_policy_front] by (simp add: place_front_def)
  with v h store_inv_789 um_policy_front show ?thesis by simp
qed


end
